theory Spec2Isabelle
  imports Complex_Main "HOL-Library.Sublist" "HOL-Library.Log_Nat"
begin

section \<open>Python string operations used by app.py\<close>

text \<open>
  A Python \<open>str\<close> is modelled as a HOL \<open>string\<close>; one \<open>char\<close> stands for one code
  point below 256. Every separator and marker that app.py searches for is ASCII.
\<close>

text \<open>Exceptions that the modelled code can meet, with the message of \<open>str(e)\<close>.\<close>

datatype exn =
    JSONDecodeError string
  | IndexError string
  | KeyError string
  | TypeError string
  | AttributeError string
  | OtherError string

fun str_exn :: "exn \<Rightarrow> string" where
  "str_exn (JSONDecodeError m) = m"
| "str_exn (IndexError m) = m"
| "str_exn (KeyError m) = m"
| "str_exn (TypeError m) = m"
| "str_exn (AttributeError m) = m"
| "str_exn (OtherError m) = m"

fun is_JSONDecodeError :: "exn \<Rightarrow> bool" where
  "is_JSONDecodeError (JSONDecodeError m) = True"
| "is_JSONDecodeError e = False"

text \<open>\<open>s.find(sub)\<close>: the index of the leftmost occurrence, \<open>None\<close> for Python's \<open>-1\<close>.\<close>

fun py_find :: "string \<Rightarrow> string \<Rightarrow> nat option" where
  "py_find sub [] = (if sub = [] then Some 0 else None)"
| "py_find sub (c # cs) =
     (if prefix sub (c # cs) then Some 0 else map_option Suc (py_find sub cs))"

text \<open>\<open>s.rfind(sub)\<close>: the index of the rightmost occurrence.\<close>

fun py_rfind :: "string \<Rightarrow> string \<Rightarrow> nat option" where
  "py_rfind sub [] = (if sub = [] then Some 0 else None)"
| "py_rfind sub (c # cs) =
     (case py_rfind sub cs of
        Some i \<Rightarrow> Some (Suc i)
      | None \<Rightarrow> if prefix sub (c # cs) then Some 0 else None)"

text \<open>The integer that \<open>find\<close> and \<open>rfind\<close> hand back.\<close>

definition find_result :: "nat option \<Rightarrow> int" where
  "find_result r = (case r of None \<Rightarrow> - 1 | Some i \<Rightarrow> int i)"

text \<open>\<open>sub in s\<close>.\<close>

definition py_in :: "string \<Rightarrow> string \<Rightarrow> bool" where
  "py_in sub s = (py_find sub s \<noteq> None)"

text \<open>
  \<open>s.split(sep)\<close>: the pieces between the leftmost non-overlapping occurrences of
  \<open>sep\<close>. Python raises ValueError for an empty separator; app.py only passes the
  literals \<open>```json\<close>, \<open>```csv\<close>, \<open>```\<close> and the newline, and the model gives no piece
  at all for an empty separator.
\<close>

function py_split :: "string \<Rightarrow> string \<Rightarrow> string list" where
  "py_split sep s =
     (if sep = [] then []
      else case py_find sep s of
             None \<Rightarrow> [s]
           | Some i \<Rightarrow> take i s # py_split sep (drop (i + length sep) s))"
  by pat_completeness auto

lemma py_find_bound: "py_find sub s = Some i \<Longrightarrow> i + length sub \<le> length s"
proof (induction s arbitrary: i)
  case Nil
  then show ?case by (simp split: if_splits)
next
  case (Cons c cs)
  show ?case
  proof (cases "prefix sub (c # cs)")
    case True
    then have "length sub \<le> length (c # cs)" by (rule prefix_length_le)
    moreover from True Cons.prems have "i = 0" by simp
    ultimately show ?thesis by simp
  next
    case False
    with Cons.prems obtain j where "py_find sub cs = Some j" "i = Suc j" by auto
    with Cons.IH show ?thesis by fastforce
  qed
qed

termination py_split
proof (relation "measure (\<lambda>(sep, s). length s)")
  show "wf (measure (\<lambda>(sep, s). length s))" by simp
next
  fix sep s :: string and i
  assume "sep \<noteq> []" and "py_find sep s = Some i"
  then have "i + length sep \<le> length s" and "0 < length sep"
    by (simp_all add: py_find_bound)
  then have "length s - (i + length sep) < length s"
    by arith
  then show "((sep, drop (i + length sep) s), (sep, s)) \<in> measure (\<lambda>(sep, s). length s)"
    by simp
qed

text \<open>\<open>xs[i]\<close> for a non-negative index: IndexError out of range.\<close>

definition py_index :: "'a list \<Rightarrow> nat \<Rightarrow> exn + 'a" where
  "py_index xs i =
     (if i < length xs then Inr (xs ! i) else Inl (IndexError ''list index out of range''))"

text \<open>\<open>sep.join(xs)\<close> on a list of strings.\<close>

fun py_join :: "string \<Rightarrow> string list \<Rightarrow> string" where
  "py_join sep [] = []"
| "py_join sep [x] = x"
| "py_join sep (x # y # ys) = x @ sep @ py_join sep (y # ys)"

text \<open>
  \<open>str.isspace\<close> on one code point below 256: tab, line feed, vertical tab, form feed,
  carriage return, the four separators 0x1C..0x1F, space, NEL and the no-break space.
\<close>

definition py_isspace :: "char \<Rightarrow> bool" where
  "py_isspace c = ((of_char c :: nat) \<in> {9, 10, 11, 12, 13, 28, 29, 30, 31, 32, 133, 160})"

text \<open>\<open>s.strip()\<close>.\<close>

definition py_strip :: "string \<Rightarrow> string" where
  "py_strip s = rev (dropWhile py_isspace (rev (dropWhile py_isspace s)))"

text \<open>\<open>s[a:b]\<close> with Python's clamping of both bounds and negative bounds from the end.\<close>

definition py_slice :: "string \<Rightarrow> int \<Rightarrow> int \<Rightarrow> string" where
  "py_slice s a b =
     (let n = int (length s);
          lo = (if a < 0 then max 0 (n + a) else min a n);
          hi = (if b < 0 then max 0 (n + b) else min b n)
      in take (nat (hi - lo)) (drop (nat lo) s))"

section \<open>Fence stripping\<close>

text \<open>The text before the first occurrence of a marker, all of it when there is none.\<close>

definition text_before :: "string \<Rightarrow> string \<Rightarrow> string" where
  "text_before marker s = (case py_find marker s of None \<Rightarrow> s | Some i \<Rightarrow> take i s)"

text \<open>The text after the first occurrence of a marker.\<close>

definition rest_after :: "string \<Rightarrow> string \<Rightarrow> string option" where
  "rest_after marker t = map_option (\<lambda>i. drop (i + length marker) t) (py_find marker t)"

text \<open>
  The spec's words for a fenced block: the text between the first opening marker and
  the next fence after it; \<open>None\<close> when the opening or the closing fence is missing.
\<close>

definition fenced_body :: "string \<Rightarrow> string \<Rightarrow> string option" where
  "fenced_body opener t =
     (case rest_after opener t of
        None \<Rightarrow> None
      | Some r \<Rightarrow> (case py_find ''```'' r of None \<Rightarrow> None | Some k \<Rightarrow> Some (take k r)))"

text \<open>
  A second marker that starts one or two characters into the closing fence (a run of
  four or five backticks before the label).
\<close>

definition marker_overlaps :: "string \<Rightarrow> string \<Rightarrow> bool" where
  "marker_overlaps opener t =
     (case rest_after opener t of
        None \<Rightarrow> False
      | Some r \<Rightarrow>
          (case py_find ''```'' r of
             None \<Rightarrow> False
           | Some k \<Rightarrow> py_find opener r = Some (k + 1) \<or> py_find opener r = Some (k + 2)))"

text \<open>
  Lines 89--94 of \<open>analyze_data\<close>: the text handed to \<open>json.loads\<close>. Both subscripts are
  written out with their IndexError.
\<close>

definition first_piece_after :: "string \<Rightarrow> string \<Rightarrow> exn + string" where
  "first_piece_after marker t =
     (case py_index (py_split marker t) 1 of
        Inl e \<Rightarrow> Inl e
      | Inr piece \<Rightarrow> py_index (py_split ''```'' piece) 0)"

definition json_candidate :: "string \<Rightarrow> exn + string" where
  "json_candidate response_text =
     (case (if py_in ''```json'' response_text then first_piece_after ''```json'' response_text
            else if py_in ''```'' response_text then first_piece_after ''```'' response_text
            else Inr response_text) of
        Inl e \<Rightarrow> Inl e
      | Inr chosen \<Rightarrow> Inr (py_strip chosen))"

text \<open>Lines 144--153 of \<open>clean_data\<close>: the text that \<open>clean_data\<close> returns for a reply.\<close>

definition fence_line :: "string \<Rightarrow> bool" where
  "fence_line l = prefix ''```'' (py_strip l)"

definition strip_csv_fences :: "string \<Rightarrow> exn + string" where
  "strip_csv_fences cleaned_csv =
     (case (if py_in ''```csv'' cleaned_csv then first_piece_after ''```csv'' cleaned_csv
            else if py_in ''```'' cleaned_csv then
              Inr (py_join ''\<newline>'' (filter (\<lambda>l. \<not> fence_line l) (py_split ''\<newline>'' cleaned_csv)))
            else Inr cleaned_csv) of
        Inl e \<Rightarrow> Inl e
      | Inr text \<Rightarrow> Inr (py_strip text))"

text \<open>
  The spec's words for a response that consists of a CSV text wrapped in a fenced
  block. \<open>blank\<close> is a text of whitespace only. The labelled block is an opening
  \<open>```csv\<close>, the CSV text and a closing fence, with whitespace around each part. The
  generic block is a fence line with a label, the CSV text on the lines after it, and
  the closing fence on a line of its own.
\<close>

definition blank :: "string \<Rightarrow> bool" where
  "blank s = list_all py_isspace s"

definition labelled_block :: "string \<Rightarrow> string \<Rightarrow> string \<Rightarrow> string \<Rightarrow> string \<Rightarrow> string" where
  "labelled_block lead w1 csv w2 tail = lead @ ''```csv'' @ w1 @ csv @ w2 @ ''```'' @ tail"

definition generic_block :: "string \<Rightarrow> string \<Rightarrow> string \<Rightarrow> string \<Rightarrow> string \<Rightarrow> string" where
  "generic_block lead label csv w tail =
     lead @ ''```'' @ label @ ''\<newline>'' @ csv @ ''\<newline>'' @ w @ ''```'' @ tail"

text \<open>Lines 151--152: the lines that are kept when the reply has a fence and no
  \<open>```csv\<close>, joined again.\<close>

definition kept_text :: "string \<Rightarrow> string" where
  "kept_text t = py_join ''\<newline>'' (filter (\<lambda>l. \<not> fence_line l) (py_split ''\<newline>'' t))"

section \<open>Values, tables and the libraries app.py calls\<close>

text \<open>
  What \<open>json.loads\<close> hands back: None, bool, int, float, str, list and dict. A dict
  keeps its keys in insertion order; a finite float is the rational it denotes.
\<close>

datatype json =
    JNull
  | JBool bool
  | JInt int
  | JFloat rat
  | JStr string
  | JArr "json list"
  | JObj "(string \<times> json) list"

text \<open>Python truthiness, as \<open>if analysis:\<close> and \<open>if cleaned_csv:\<close> test it.\<close>

fun truthy :: "json \<Rightarrow> bool" where
  "truthy JNull = False"
| "truthy (JBool b) = b"
| "truthy (JInt n) = (n \<noteq> 0)"
| "truthy (JFloat r) = (r \<noteq> 0)"
| "truthy (JStr s) = (s \<noteq> [])"
| "truthy (JArr xs) = (xs \<noteq> [])"
| "truthy (JObj kvs) = (kvs \<noteq> [])"

text \<open>\<open>analysis.get(key, default)\<close>: only a dict has the method.\<close>

fun py_get :: "json \<Rightarrow> string \<Rightarrow> json \<Rightarrow> exn + json" where
  "py_get (JObj kvs) key dflt = Inr (case map_of kvs key of None \<Rightarrow> dflt | Some v \<Rightarrow> v)"
| "py_get a key dflt = Inl (AttributeError ''object has no attribute get'')"

text \<open>\<open>analysis[key]\<close> with a string key: KeyError when a dict lacks the key.\<close>

fun py_getitem :: "json \<Rightarrow> string \<Rightarrow> exn + json" where
  "py_getitem (JObj kvs) key =
     (case map_of kvs key of None \<Rightarrow> Inl (KeyError key) | Some v \<Rightarrow> Inr v)"
| "py_getitem a key = Inl (TypeError ''indices must be integers or object is not subscriptable'')"

text \<open>Iteration: a list gives its items, a str its characters, a dict its keys.\<close>

fun py_iter :: "json \<Rightarrow> exn + json list" where
  "py_iter (JArr xs) = Inr xs"
| "py_iter (JStr s) = Inr (map (\<lambda>c. JStr [c]) s)"
| "py_iter (JObj kvs) = Inr (map (\<lambda>kv. JStr (fst kv)) kvs)"
| "py_iter a = Inl (TypeError ''object is not iterable'')"

text \<open>A table: column labels and rows of cells, \<open>None\<close> for a null cell.\<close>

record 'v table =
  columns :: "string list"
  rows :: "'v option list list"

text \<open>\<open>df.head(n)\<close> for a non-negative \<open>n\<close>.\<close>

definition head :: "nat \<Rightarrow> 'v table \<Rightarrow> 'v table" where
  "head n df = df\<lparr>rows := take n (rows df)\<rparr>"

text \<open>
  The cell of a row under the column at position \<open>j\<close>. A DataFrame has one cell per
  column in every row; a row given shorter than the header is read with nulls in the
  missing places, as pandas fills it.
\<close>

definition cell :: "'v option list \<Rightarrow> nat \<Rightarrow> 'v option" where
  "cell r j = (if j < length r then r ! j else None)"

text \<open>\<open>df.isnull().sum()\<close>: for every column label the number of its null cells, in
  column order.\<close>

definition isnull_sum :: "'v table \<Rightarrow> (string \<times> nat) list" where
  "isnull_sum df =
     map (\<lambda>(j, c). (c, length (filter (\<lambda>r. cell r j = None) (rows df))))
       (enumerate 0 (columns df))"

text \<open>\<open>df.isnull().sum().sum()\<close>: the null cells of the table.\<close>

definition missing_total :: "'v table \<Rightarrow> nat" where
  "missing_total df = sum_list (map snd (isnull_sum df))"

text \<open>
  Modelled from the spec: \<open>DataFrame.duplicated\<close> is pandas code, absent from src/. The
  spec (4.2 and 8) counts the rows that are exact duplicates of an earlier row; the scan
  marks a row when an equal row was seen before it, as the default \<open>keep='first'\<close> does.
\<close>

fun duplicated_scan :: "'a list \<Rightarrow> 'a list \<Rightarrow> bool list" where
  "duplicated_scan seen [] = []"
| "duplicated_scan seen (r # rs) = (r \<in> set seen) # duplicated_scan (r # seen) rs"

definition duplicated :: "'v table \<Rightarrow> bool list" where
  "duplicated df = duplicated_scan [] (rows df)"

text \<open>Line 249: \<open>duplicates = df.duplicated().sum()\<close>.\<close>

definition duplicates :: "'v table \<Rightarrow> nat" where
  "duplicates df = length (filter (\<lambda>b. b) (duplicated df))"

text \<open>The chat-completion request of \<open>client.chat.completions.create\<close>.\<close>

record request =
  model :: string
  content :: string
  temperature :: rat
  max_tokens :: nat

datatype client = Groq string

text \<open>
  The plotly figures the page builds: the bar chart of the null counts by column, the
  pie chart of the dtype counts, the histogram of one column of the table and the heat
  map of the correlations between the numeric columns.
\<close>

datatype figure =
    Bar "(string \<times> nat) list"
  | Pie "(string \<times> nat) list"
  | Histogram string
  | Heatmap "string list"

text \<open>
  Library and remote calls are parameters of the model: \<open>json.loads\<close>, \<open>pd.read_csv\<close>
  and \<open>pd.read_excel\<close> on the text or bytes given, \<open>DataFrame.to_csv(index=False)\<close>, the \<open>Groq\<close> constructor, and the remote call
  together with the read of \<open>response.choices[0].message.content\<close> (\<open>None\<close> when the
  message has no content, \<open>Inl\<close> for anything raised on the way).

  The pandas, plotly and Streamlit calls of the two first tabs are parameters as well.
  \<open>sort_values\<close> is \<open>Series.sort_values(ascending=False)\<close> on the null counts;
  \<open>dtype_counts\<close> is \<open>df.dtypes.value_counts()\<close> with the dtype names as text;
  \<open>numeric_columns\<close> is \<open>df.select_dtypes(include=['number']).columns\<close>. Of a call
  that renders, only whether it returns matters: \<open>st_dataframe\<close> is \<open>st.dataframe\<close> on
  a frame, \<open>st_column_info\<close> is lines 261--268 (the frame of the names, dtypes, non-null,
  null and distinct counts of the columns, and \<open>st.dataframe\<close> on it), \<open>px\<close> is the
  plotly express call that builds a figure from the table (with \<open>corr\<close> before \<open>px.imshow\<close>
  and \<open>update_layout\<close> after the others) and \<open>st_plotly_chart\<close> is \<open>st.plotly_chart\<close>;
  each gives \<open>None\<close> when it returns and the exception when it raises.
\<close>

record 'v lib =
  json_loads :: "string \<Rightarrow> exn + json"
  read_csv :: "string \<Rightarrow> exn + 'v table"
  read_excel :: "string \<Rightarrow> exn + 'v table"
  to_csv :: "'v table \<Rightarrow> string"
  groq_init :: "string \<Rightarrow> exn + client"
  chat :: "client \<Rightarrow> request \<Rightarrow> exn + string option"
  sort_values :: "(string \<times> nat) list \<Rightarrow> (string \<times> nat) list"
  dtype_counts :: "'v table \<Rightarrow> (string \<times> nat) list"
  numeric_columns :: "'v table \<Rightarrow> string list"
  st_dataframe :: "'v table \<Rightarrow> exn option"
  st_column_info :: "'v table \<Rightarrow> exn option"
  px :: "'v table \<Rightarrow> figure \<Rightarrow> exn option"
  st_plotly_chart :: "figure \<Rightarrow> exn option"

section \<open>The arithmetic of the missing-value percentage\<close>

text \<open>
  Line 245 divides a numpy integer by a Python integer and multiplies by 100; line 246
  formats the result with \<open>.1f\<close>. Both operations are IEEE-754 binary64 operations: the
  exact result is rounded to the nearest double, ties to the even mantissa. A finite
  double is modelled by the rational it denotes (the sign of a zero is not kept: the
  operands here are never negative).
\<close>

text \<open>The nearest integer, ties to even.\<close>

definition round_half_even :: "rat \<Rightarrow> int" where
  "round_half_even y =
     (let f = \<lfloor>y\<rfloor>; d = y - of_int f
      in if d < 1 / 2 then f else if 1 / 2 < d then f + 1 else if even f then f else f + 1)"

text \<open>For a positive \<open>x\<close>, the exponent \<open>e\<close> with \<open>2 powi e \<le> x < 2 powi (e + 1)\<close>.\<close>

definition float_exponent :: "rat \<Rightarrow> int" where
  "float_exponent x =
     (let (p, q) = quotient_of x; e = bitlen p - bitlen q
      in if 2 powi e \<le> x then e else e - 1)"

text \<open>
  Rounding to 53 significant bits; below \<open>2 powi (- 1022)\<close> the spacing stays that of the
  smallest normal exponent (subnormal numbers).
\<close>

definition round_double :: "rat \<Rightarrow> rat" where
  "round_double x =
     (if x = 0 then 0
      else let a = \<bar>x\<bar>; e = max (float_exponent a) (- 1022); ulp = 2 powi (e - 52)
           in sgn x * of_int (round_half_even (a / ulp)) * ulp)"

datatype float64 = Finite rat | PosInf | NegInf | NaN

text \<open>The double nearest to a rational: a rounded magnitude of \<open>2 powi 1024\<close> or more
  overflows to an infinity.\<close>

definition to_float64 :: "rat \<Rightarrow> float64" where
  "to_float64 x =
     (let r = round_double x
      in if 2 powi 1024 \<le> \<bar>r\<bar> then (if 0 < r then PosInf else NegInf) else Finite r)"

text \<open>
  \<open>np.int64 / int\<close>: numpy's \<open>true_divide\<close> converts both integers to doubles and
  divides them. A zero divisor raises nothing (numpy warns): the quotient is \<open>nan\<close> for
  \<open>0 / 0\<close> and an infinity otherwise.
\<close>

definition true_divide :: "int \<Rightarrow> int \<Rightarrow> float64" where
  "true_divide a b =
     (case (to_float64 (of_int a), to_float64 (of_int b)) of
        (Finite x, Finite y) \<Rightarrow>
          if y = 0 then (if x = 0 then NaN else if 0 < x then PosInf else NegInf)
          else to_float64 (x / y)
      | _ \<Rightarrow> NaN)"

text \<open>\<open>np.float64 * int\<close>: the integer is converted to a double, the product is rounded.\<close>

definition times_int :: "float64 \<Rightarrow> int \<Rightarrow> float64" where
  "times_int v k =
     (case (v, to_float64 (of_int k)) of
        (Finite x, Finite y) \<Rightarrow> to_float64 (x * y)
      | (PosInf, Finite y) \<Rightarrow> if 0 < y then PosInf else if y < 0 then NegInf else NaN
      | (NegInf, Finite y) \<Rightarrow> if 0 < y then NegInf else if y < 0 then PosInf else NaN
      | _ \<Rightarrow> NaN)"

text \<open>The decimal numeral of a natural number.\<close>

definition digit :: "nat \<Rightarrow> char" where
  "digit d = char_of (48 + d)"

function dec :: "nat \<Rightarrow> string" where
  "dec n = (if n < 10 then [digit n] else dec (n div 10) @ [digit (n mod 10)])"
  by pat_completeness auto

termination dec
  by (relation "measure id") auto

text \<open>
  \<open>f"{x:.1f}"\<close>: the exact value of the double is rounded to one decimal place, ties to
  even, and written with its integer part, a point and one digit; \<open>nan\<close> and the
  infinities are written by name.
\<close>

definition format_1f :: "float64 \<Rightarrow> string" where
  "format_1f v =
     (case v of
        NaN \<Rightarrow> ''nan''
      | PosInf \<Rightarrow> ''inf''
      | NegInf \<Rightarrow> ''-inf''
      | Finite x \<Rightarrow>
          (let t = nat (round_half_even (10 * \<bar>x\<bar>))
           in (if x < 0 then ''-'' else []) @ dec (t div 10) @ ''.'' @ dec (t mod 10)))"

text \<open>\<open>m / n * 100\<close> for a numpy integer \<open>m\<close> and a Python integer \<open>n\<close>.\<close>

definition percentage :: "nat \<Rightarrow> nat \<Rightarrow> float64" where
  "percentage m n = times_int (true_divide (int m) (int n)) 100"

text \<open>Line 245: \<open>missing_pct = (missing_total / (len(df) * len(df.columns)) * 100)\<close>.\<close>

definition missing_pct :: "'v table \<Rightarrow> float64" where
  "missing_pct df = percentage (missing_total df) (length (rows df) * length (columns df))"

section \<open>What the page shows\<close>

text \<open>
  Streamlit output, one element per call. Texts are the source's without their emoji, a
  long markdown block is cut to its heading, subheaders are left out, and values spliced
  into an f-string are kept as values. The delta of a metric is the integer or the text
  passed as \<open>delta\<close>. \<open>Preview n\<close> is a \<open>st.dataframe\<close> that returned, on a frame of
  \<open>n\<close> rows; \<open>ColumnInfo\<close> is the column-information frame shown; \<open>Plotly f\<close> is a
  \<open>st.plotly_chart\<close> that returned, on the figure \<open>f\<close>.
\<close>

datatype delta = ByInt int | ByText string

datatype level = Err | Info | Warn | Succ

datatype icon = Red | Yellow | Green

datatype ui =
    Notice level string
  | Quality icon json
  | Issue nat json
  | Recommendation nat json
  | Markdown string
  | Metric string int "delta option"
  | Preview nat
  | ColumnInfo
  | Plotly figure
  | Code
  | Balloons
  | Download string

section \<open>get_client\<close>


section \<open>analyze_data\<close>

definition analysis_prompt :: "string \<Rightarrow> string" where
  "analysis_prompt csv_string =
     ''Analyze this CSV data sample and provide data cleaning recommendations. \<newline>'' @
     ''Return ONLY a valid JSON object with this exact structure (no markdown, no explanations):\<newline>'' @
     ''{\<newline>'' @
     ''  \"issues\": [\"list of specific issues found\"],\<newline>'' @
     ''  \"recommendations\": [\"list of cleaning steps to take\"],\<newline>'' @
     ''  \"summary\": \"brief summary of data quality\",\<newline>'' @
     ''  \"severity\": \"high/medium/low\"\<newline>'' @
     ''}\<newline>'' @
     ''\<newline>'' @
     ''CSV Data Sample:\<newline>'' @
     csv_string"

definition analysis_request :: "string \<Rightarrow> request" where
  "analysis_request csv_string =
     \<lparr>model = ''llama-3.3-70b-versatile'', content = analysis_prompt csv_string,
      temperature = 3 / 10, max_tokens = 1500\<rparr>"

text \<open>The spec's brace pair: a closing brace somewhere after the first opening brace.\<close>

definition has_brace_pair :: "string \<Rightarrow> bool" where
  "has_brace_pair s = (CHR ''}'' \<in> set (dropWhile (\<lambda>c. c \<noteq> CHR ''{'') s))"

text \<open>
  Lines 86--107, the inner \<open>try\<close>: what becomes of a reply text. \<open>Raised\<close> is an
  exception that leaves the inner \<open>try\<close> for the outer handler; the fallback reads
  \<open>response_text\<close> as the \<open>try\<close> body left it, fence-stripped and stripped.
\<close>

datatype parsed = Returned json | NoJson | Raised exn

definition parse_reply :: "(string \<Rightarrow> exn + json) \<Rightarrow> string \<Rightarrow> parsed" where
  "parse_reply loads response_text =
     (case json_candidate response_text of
        Inl e \<Rightarrow> Raised e
      | Inr text \<Rightarrow>
          (case loads text of
             Inr a \<Rightarrow> Returned a
           | Inl e \<Rightarrow>
               if is_JSONDecodeError e then
                 (let start = find_result (py_find ''{'' text);
                      end' = find_result (py_rfind ''}'' text) + 1
                  in if start \<noteq> - 1 \<and> end' > start then
                       (case loads (py_slice text start end') of
                          Inr a \<Rightarrow> Returned a
                        | Inl e' \<Rightarrow> Raised e')
                     else NoJson)
               else Raised e))"

text \<open>
  Lines 55--111. The result is the returned value (\<open>JNull\<close> for \<open>None\<close>), what was shown
  and the requests sent.
\<close>

definition analyze_data ::
  "'v lib \<Rightarrow> client option \<Rightarrow> 'v table \<Rightarrow> json \<times> ui list \<times> request list" where
  "analyze_data L cl df_sample =
     (case cl of
        None \<Rightarrow> (JNull, [], [])
      | Some c \<Rightarrow>
          (let csv_string = to_csv L df_sample;
               req = analysis_request csv_string;
               failed = (\<lambda>e. (JNull, [Notice Err (''Analysis error: '' @ str_exn e)], [req]))
           in case chat L c req of
                Inl e \<Rightarrow> failed e
              | Inr None \<Rightarrow> failed (TypeError ''argument of type NoneType is not iterable'')
              | Inr (Some response_text) \<Rightarrow>
                  (case parse_reply (json_loads L) response_text of
                     Returned a \<Rightarrow> (a, [], [req])
                   | NoJson \<Rightarrow>
                       (JNull, [Notice Err ''Could not parse AI response. Please try again.''], [req])
                   | Raised e \<Rightarrow> failed e)))"

section \<open>clean_data\<close>

text \<open>\<open>', '.join(issues)\<close>: every item must be a str.\<close>

fun str_items :: "json list \<Rightarrow> exn + string list" where
  "str_items [] = Inr []"
| "str_items (JStr s # xs) = (case str_items xs of Inl e \<Rightarrow> Inl e | Inr ss \<Rightarrow> Inr (s # ss))"
| "str_items (x # xs) = Inl (TypeError ''sequence item: expected str instance'')"

definition join_issues :: "json \<Rightarrow> exn + string" where
  "join_issues issues =
     (case py_iter issues of
        Inl e \<Rightarrow> Inl e
      | Inr xs \<Rightarrow> (case str_items xs of Inl e \<Rightarrow> Inl e | Inr ss \<Rightarrow> Inr (py_join '', '' ss)))"

definition cleaning_prompt :: "string \<Rightarrow> string \<Rightarrow> string" where
  "cleaning_prompt joined csv_string =
     ''Clean this CSV data based on these issues: '' @ joined @ ''\<newline>'' @
     ''\<newline>'' @
     ''Apply these fixes intelligently:\<newline>'' @
     ''1. Remove duplicate rows\<newline>'' @
     ''2. Handle missing values (median for numbers, mode for categories, or remove if >50% missing)\<newline>'' @
     ''3. Standardize formats (dates, text case, numbers)\<newline>'' @
     ''4. Remove extra whitespace and special characters where inappropriate\<newline>'' @
     ''5. Fix obvious data entry errors\<newline>'' @
     ''6. Ensure consistent data types per column\<newline>'' @
     ''\<newline>'' @
     ''IMPORTANT: Return ONLY the cleaned CSV data with headers. No explanations, no markdown formatting, just the raw CSV.\<newline>'' @
     ''\<newline>'' @
     ''Original CSV Data:\<newline>'' @
     csv_string"

definition cleaning_request :: "string \<Rightarrow> string \<Rightarrow> request" where
  "cleaning_request joined csv_string =
     \<lparr>model = ''llama-3.3-70b-versatile'', content = cleaning_prompt joined csv_string,
      temperature = 2 / 10, max_tokens = 4000\<rparr>"

text \<open>
  Lines 113--157. The prompt is built before the call, so a failing \<open>join\<close> sends
  nothing.
\<close>

definition clean_data ::
  "'v lib \<Rightarrow> client option \<Rightarrow> 'v table \<Rightarrow> json \<Rightarrow> string option \<times> ui list \<times> request list" where
  "clean_data L cl df issues =
     (case cl of
        None \<Rightarrow> (None, [], [])
      | Some c \<Rightarrow>
          (let csv_string = to_csv L df;
               failed = (\<lambda>e. [Notice Err (''Cleaning error: '' @ str_exn e)])
           in case join_issues issues of
                Inl e \<Rightarrow> (None, failed e, [])
              | Inr joined \<Rightarrow>
                  (let req = cleaning_request joined csv_string
                   in case chat L c req of
                        Inl e \<Rightarrow> (None, failed e, [req])
                      | Inr None \<Rightarrow>
                          (None, failed (TypeError ''argument of type NoneType is not iterable''),
                           [req])
                      | Inr (Some cleaned_csv) \<Rightarrow>
                          (case strip_csv_fences cleaned_csv of
                             Inl e \<Rightarrow> (None, failed e, [req])
                           | Inr text \<Rightarrow> (Some text, [], [req])))))"

section \<open>The page script\<close>

text \<open>
  \<open>st.session_state\<close> holds three keys; a key that was never stored is \<open>None\<close>.
\<close>

record 'v session =
  analysis :: "json option"
  cleaned_data :: "string option"
  cleaned_df :: "'v table option"

text \<open>
  One run of a part of the script: the session state it leaves, what it showed, the
  requests it sent and the exception that ended it, if one did.
\<close>

record 'v run =
  state :: "'v session"
  shown :: "ui list"
  sent :: "request list"
  raised :: "exn option"

text \<open>A run is started by a plain rerun or by the click on one button.\<close>

datatype action = Rerun | ClickAnalyze | ClickClean

text \<open>Lines 238--250: the four metrics. The delta of the third is the text
  \<open>f"{missing_pct:.1f}%"\<close>.\<close>

definition metrics :: "'v table \<Rightarrow> ui list" where
  "metrics df =
     [Metric ''Rows'' (int (length (rows df))) None,
      Metric ''Columns'' (int (length (columns df))) None,
      Metric ''Missing Values'' (int (missing_total df))
        (Some (ByText (format_1f (missing_pct df) @ ''%''))),
      Metric ''Duplicates'' (int (duplicates df)) None]"

text \<open>
  Statements run in sequence: what the second shows follows what the first showed,
  unless the first raised. \<open>emit r us\<close> is a library call that shows \<open>us\<close> when it
  returns; \<open>first_raised\<close> is the exception of the first call that raised.
\<close>

definition and_then :: "ui list \<times> exn option \<Rightarrow> ui list \<times> exn option \<Rightarrow> ui list \<times> exn option" where
  "and_then a b = (case snd a of Some e \<Rightarrow> a | None \<Rightarrow> (fst a @ fst b, snd b))"

definition emit :: "exn option \<Rightarrow> ui list \<Rightarrow> ui list \<times> exn option" where
  "emit r us = (case r of Some e \<Rightarrow> ([], Some e) | None \<Rightarrow> (us, None))"




text \<open>Lines 319--326: \<open>severity_color.get(severity, yellow)\<close>; a list or a dict is
  unhashable.\<close>

fun severity_color :: "json \<Rightarrow> exn + icon" where
  "severity_color (JArr xs) = Inl (TypeError ''unhashable type: list'')"
| "severity_color (JObj kvs) = Inl (TypeError ''unhashable type: dict'')"
| "severity_color (JStr s) =
     Inr (if s = ''high'' then Red else if s = ''medium'' then Yellow
          else if s = ''low'' then Green else Yellow)"
| "severity_color a = Inr Yellow"

text \<open>\<open>enumerate(xs, 1)\<close> rendered with one constructor per item.\<close>

definition numbered :: "(nat \<Rightarrow> json \<Rightarrow> ui) \<Rightarrow> json list \<Rightarrow> ui list" where
  "numbered mk xs = map (\<lambda>(i, x). mk i x) (zip [1..<Suc (length xs)] xs)"

text \<open>
  Lines 315--340: the display of the stored analysis. No \<open>try\<close> surrounds it: the pair
  is what was shown and the exception that ended the display, if any.
\<close>

definition display_analysis :: "json \<Rightarrow> ui list \<times> exn option" where
  "display_analysis a =
     (case py_get a ''severity'' (JStr ''medium'') of
        Inl e \<Rightarrow> ([], Some e)
      | Inr severity \<Rightarrow>
     (case severity_color severity of
        Inl e \<Rightarrow> ([], Some e)
      | Inr ic \<Rightarrow>
     (case py_getitem a ''summary'' of
        Inl e \<Rightarrow> ([], Some e)
      | Inr summary \<Rightarrow>
     (let out1 = [Quality ic summary, Markdown ''### Issues Found'']
      in case py_getitem a ''issues'' of
        Inl e \<Rightarrow> (out1, Some e)
      | Inr issues \<Rightarrow>
     (case py_iter issues of
        Inl e \<Rightarrow> (out1, Some e)
      | Inr xs \<Rightarrow>
     (let out2 = out1 @ numbered Issue xs @ [Markdown ''### Recommendations'']
      in case py_getitem a ''recommendations'' of
        Inl e \<Rightarrow> (out2, Some e)
      | Inr recs \<Rightarrow>
     (case py_iter recs of
        Inl e \<Rightarrow> (out2, Some e)
      | Inr ys \<Rightarrow> (out2 @ numbered Recommendation ys @ [Markdown ''---''], None))))))))"

text \<open>Lines 307--313: the Analyze button.\<close>

definition analyze_clicked :: "'v lib \<Rightarrow> client option \<Rightarrow> 'v table \<Rightarrow> 'v session \<Rightarrow> 'v run" where
  "analyze_clicked L cl df S =
     (let sample = head 100 df;
          (a, out, reqs) = analyze_data L cl sample
      in \<lparr>state = (if truthy a then S\<lparr>analysis := Some a\<rparr> else S),
          shown = out, sent = reqs, raised = None\<rparr>)"

text \<open>
  Lines 342--354: the Clean button. The reply text is stored under \<open>cleaned_data\<close>
  before \<open>pd.read_csv\<close> runs inside the same \<open>try\<close>.
\<close>

definition clean_clicked :: "'v lib \<Rightarrow> client option \<Rightarrow> 'v table \<Rightarrow> 'v session \<Rightarrow> json \<Rightarrow> 'v run" where
  "clean_clicked L cl df S a =
     (case py_getitem a ''issues'' of
        Inl e \<Rightarrow> \<lparr>state = S, shown = [], sent = [], raised = Some e\<rparr>
      | Inr issues \<Rightarrow>
          (let (res, out, reqs) = clean_data L cl df issues
           in case res of
                None \<Rightarrow> \<lparr>state = S, shown = out, sent = reqs, raised = None\<rparr>
              | Some cleaned_csv \<Rightarrow>
                  if cleaned_csv = [] then \<lparr>state = S, shown = out, sent = reqs, raised = None\<rparr>
                  else
                    (let S1 = S\<lparr>cleaned_data := Some cleaned_csv\<rparr>
                     in case read_csv L cleaned_csv of
                          Inl e \<Rightarrow>
                            \<lparr>state = S1,
                             shown = out @ [Notice Err (''Error parsing cleaned data: '' @ str_exn e)],
                             sent = reqs, raised = None\<rparr>
                        | Inr t \<Rightarrow>
                            \<lparr>state = S1\<lparr>cleaned_df := Some t\<rparr>,
                             shown = out @ [Notice Succ ''Data cleaned successfully!'', Balloons],
                             sent = reqs, raised = None\<rparr>)))"

text \<open>Lines 356--390: the cleaned table, its metrics against the loaded table, and the
  download of the stored text.\<close>

definition cleaned_section :: "'v lib \<Rightarrow> 'v table \<Rightarrow> 'v session \<Rightarrow> ui list \<times> exn option" where
  "cleaned_section L df S =
     (case cleaned_df S of
        None \<Rightarrow> ([], None)
      | Some t \<Rightarrow>
          and_then
            ([Markdown ''---'', Markdown ''Cleaned Data'',
              Metric ''Rows'' (int (length (rows t)))
                (Some (ByInt (int (length (rows t)) - int (length (rows df))))),
              Metric ''Columns'' (int (length (columns t))) None,
              Metric ''Missing Values'' (int (missing_total t))
                (Some (ByInt (- (int (missing_total df) - int (missing_total t))))),
              Metric ''Duplicates'' (int (duplicates t))
                (Some (ByInt (- (int (duplicates df) - int (duplicates t)))))], None)
         (and_then (emit (st_dataframe L (head 20 t)) [Preview (length (rows (head 20 t)))])
            (case cleaned_data S of
               None \<Rightarrow> ([], Some (KeyError ''cleaned_data''))
             | Some text \<Rightarrow> ([Download text], None))))"

text \<open>Lines 300--390: the analysis tab in one run.\<close>

definition analysis_tab :: "'v lib \<Rightarrow> client option \<Rightarrow> 'v table \<Rightarrow> action \<Rightarrow> 'v session \<Rightarrow> 'v run" where
  "analysis_tab L cl df act S =
     (if cl = None then
        \<lparr>state = S,
         shown = [Notice Warn ''Please set your GROQ_API_KEY to use AI features'', Code],
         sent = [], raised = None\<rparr>
      else
        (let r1 = (if act = ClickAnalyze then analyze_clicked L cl df S
                   else \<lparr>state = S, shown = [], sent = [], raised = None\<rparr>)
         in case analysis (state r1) of
              None \<Rightarrow> r1
            | Some a \<Rightarrow>
                (case display_analysis a of
                   (out2, Some e) \<Rightarrow> r1\<lparr>shown := shown r1 @ out2, raised := Some e\<rparr>
                 | (out2, None) \<Rightarrow>
                     (let r2 = (if act = ClickClean then clean_clicked L cl df (state r1) a
                                else \<lparr>state = state r1, shown = [], sent = [], raised = None\<rparr>)
                      in case raised r2 of
                           Some e \<Rightarrow>
                             \<lparr>state = state r2, shown = shown r1 @ out2 @ shown r2,
                              sent = sent r1 @ sent r2, raised = Some e\<rparr>
                         | None \<Rightarrow>
                             (let (out4, ex) = cleaned_section L df (state r2)
                              in \<lparr>state = state r2, shown = shown r1 @ out2 @ shown r2 @ out4,
                                  sent = sent r1 @ sent r2, raised = ex\<rparr>)))))"






section \<open>A concrete library for evaluation\<close>

text \<open>
  The theorems hold for every library record. To evaluate the model on concrete replies,
  \<open>sample_lib\<close> tabulates \<open>json.loads\<close> and \<open>pd.read_csv\<close> on the texts the examples
  use (every other text is reported as an error, and no example passes one that the
  real library accepts), writes a table header first without quoting, and answers the
  analysis request (the one with 1500 tokens) and the cleaning request with fixed texts.
  A cell holds the text of its CSV field. A column without rows has dtype \<open>object\<close>, a
  column of digit fields \<open>int64\<close>, \<open>float64\<close> when some of them are null; counts are
  sorted in descending order. Every rendering call of the sample library returns.
\<close>

definition sample_loads :: "string \<Rightarrow> exn + json" where
  "sample_loads s =
     (if s = ''{\"a\": 1}'' then Inr (JObj [(''a'', JInt 1)])
      else if s = ''[{\"a\": 1}]'' then Inr (JArr [JObj [(''a'', JInt 1)]])
      else if s = ''42'' then Inr (JInt 42)
      else if s = ''{\"severity\": \"high\"}'' then Inr (JObj [(''severity'', JStr ''high'')])
      else Inl (JSONDecodeError ''Expecting value''))"

definition sample_read_csv :: "string \<Rightarrow> exn + string table" where
  "sample_read_csv s =
     (if s = ''a,b\<newline>1,2'' \<or> s = ''a,b\<newline>1,2\<newline>'' then
        Inr \<lparr>columns = [''a'', ''b''], rows = [[Some ''1'', Some ''2'']]\<rparr>
      else if s = ''a,```b,c\<newline>1,2,3'' then
        Inr \<lparr>columns = [''a'', ''```b'', ''c''], rows = [[Some ''1'', Some ''2'', Some ''3'']]\<rparr>
      else if s = ''a,'' then
        Inr \<lparr>columns = [''a'', ''Unnamed: 1''], rows = []\<rparr>
      else if s = ''a,b,c\<newline>1,,5\<newline>1,,5\<newline>3,4,6'' then
        Inr \<lparr>columns = [''a'', ''b'', ''c''],
             rows = [[Some ''1'', None, Some ''5''], [Some ''1'', None, Some ''5''],
                     [Some ''3'', Some ''4'', Some ''6'']]\<rparr>
      else if s = '' \"a,b\",c\<newline>\"x,y\",z'' then
        Inr \<lparr>columns = ['' \"a'', ''b\"'', ''c''], rows = [[Some ''x,y'', Some ''z'', None]]\<rparr>
      else if s = ''\"a,b\",c\<newline>\"x,y\",z'' then
        Inr \<lparr>columns = [''a,b'', ''c''], rows = [[Some ''x,y'', Some ''z'']]\<rparr>
      else if s = ''a,b\<newline>1,2\<newline>3,4,5'' then
        Inl (OtherError ''Error tokenizing data. C error: Expected 2 fields in line 3, saw 3'')
      else Inl (OtherError ''not tabulated''))"

definition to_csv_plain :: "string table \<Rightarrow> string" where
  "to_csv_plain df =
     concat (map (\<lambda>r. py_join '','' r @ ''\<newline>'')
       (columns df # map (map (\<lambda>c. case c of None \<Rightarrow> [] | Some v \<Rightarrow> v)) (rows df)))"

definition digits :: "string \<Rightarrow> bool" where
  "digits v = (v \<noteq> [] \<and> list_all (\<lambda>c. c \<in> set ''0123456789'') v)"

definition sample_dtype :: "string option list \<Rightarrow> string" where
  "sample_dtype cells =
     (if cells = [] then ''object''
      else if list_all (\<lambda>c. case c of None \<Rightarrow> True | Some v \<Rightarrow> digits v) cells then
        (if None \<in> set cells then ''float64'' else ''int64'')
      else ''object'')"

definition sample_dtypes :: "string table \<Rightarrow> (string \<times> string) list" where
  "sample_dtypes df =
     map (\<lambda>(j, c). (c, sample_dtype (map (\<lambda>r. cell r j) (rows df)))) (enumerate 0 (columns df))"

definition sort_descending :: "(string \<times> nat) list \<Rightarrow> (string \<times> nat) list" where
  "sort_descending xs = sort_key (\<lambda>(c, k). - int k) xs"

definition sample_dtype_counts :: "string table \<Rightarrow> (string \<times> nat) list" where
  "sample_dtype_counts df =
     (let ds = map snd (sample_dtypes df)
      in sort_descending (map (\<lambda>d. (d, count_list ds d)) (remdups ds)))"

definition sample_numeric_columns :: "string table \<Rightarrow> string list" where
  "sample_numeric_columns df =
     map fst (filter (\<lambda>(c, d). d = ''int64'' \<or> d = ''float64'') (sample_dtypes df))"

definition sample_lib :: "string \<Rightarrow> string \<Rightarrow> string lib" where
  "sample_lib analysis_reply cleaning_reply =
     \<lparr>json_loads = sample_loads, read_csv = sample_read_csv,
      read_excel = (\<lambda>s. Inl (OtherError ''not tabulated'')),
      to_csv = to_csv_plain, groq_init = (\<lambda>k. Inr (Groq k)),
      chat = (\<lambda>c req. Inr (Some (if max_tokens req = 1500 then analysis_reply
                                   else cleaning_reply))),
      sort_values = sort_descending,
      dtype_counts = sample_dtype_counts,
      numeric_columns = sample_numeric_columns,
      st_dataframe = (\<lambda>t. None),
      st_column_info = (\<lambda>t. None),
      px = (\<lambda>t f. None),
      st_plotly_chart = (\<lambda>f. None)\<rparr>"


text \<open>A table with a repeated row, a complete analysis and a session that holds both
  results of an earlier cleaning.\<close>

definition sample_df :: "string table" where
  "sample_df = \<lparr>columns = [''a'', ''b''],
                rows = [[Some ''1'', Some ''2''], [Some ''1'', Some ''2'']]\<rparr>"

text \<open>A table with null cells and a repeated row: what \<open>pd.read_csv\<close> makes of
  \<open>a,b,c\<close>, \<open>1,,5\<close>, \<open>1,,5\<close>, \<open>3,4,6\<close>.\<close>

definition sample_nulls :: "string table" where
  "sample_nulls = \<lparr>columns = [''a'', ''b'', ''c''],
                   rows = [[Some ''1'', None, Some ''5''], [Some ''1'', None, Some ''5''],
                           [Some ''3'', Some ''4'', Some ''6'']]\<rparr>"

definition sample_analysis :: json where
  "sample_analysis =
     JObj [(''issues'', JArr [JStr ''duplicate rows'']),
           (''recommendations'', JArr [JStr ''drop duplicates'']),
           (''summary'', JStr ''one repeated row''),
           (''severity'', JStr ''low'')]"

definition sample_session :: "string session" where
  "sample_session =
     \<lparr>analysis = Some sample_analysis, cleaned_data = Some ''a,b\<newline>1,2'',
      cleaned_df = Some \<lparr>columns = [''a'', ''b''], rows = [[Some ''1'', Some ''2'']]\<rparr>\<rparr>"

section \<open>Properties of the string operations\<close>

declare py_split.simps [simp del]

lemma py_find_SomeD: "py_find sub s = Some i \<Longrightarrow> prefix sub (drop i s) \<and> i \<le> length s"
proof (induction s arbitrary: i)
  case Nil
  then show ?case by (simp split: if_splits)
next
  case (Cons c cs)
  then show ?case by (cases "prefix sub (c # cs)") auto
qed

lemma py_find_first: "py_find sub s = Some i \<Longrightarrow> j < i \<Longrightarrow> \<not> prefix sub (drop j s)"
proof (induction s arbitrary: i j)
  case Nil
  then show ?case by (simp split: if_splits)
next
  case (Cons c cs)
  show ?case
  proof (cases "prefix sub (c # cs)")
    case True
    with Cons.prems show ?thesis by simp
  next
    case False
    with Cons.prems obtain k where k: "py_find sub cs = Some k" "i = Suc k" by auto
    show ?thesis
    proof (cases j)
      case 0
      with False show ?thesis by simp
    next
      case (Suc j')
      with Cons.prems k have "j' < k" by simp
      with Cons.IH k have "\<not> prefix sub (drop j' cs)" by blast
      with Suc show ?thesis by simp
    qed
  qed
qed

lemma py_find_None: "py_find sub s = None \<Longrightarrow> \<not> prefix sub (drop j s)"
proof (induction s arbitrary: j)
  case Nil
  then show ?case by (simp split: if_splits)
next
  case (Cons c cs)
  then show ?case by (cases j) (auto split: if_splits)
qed

lemma py_find_eqI:
  "prefix sub (drop i s) \<Longrightarrow> i \<le> length s \<Longrightarrow> (\<And>j. j < i \<Longrightarrow> \<not> prefix sub (drop j s))
   \<Longrightarrow> py_find sub s = Some i"
proof -
  assume a: "prefix sub (drop i s)" "i \<le> length s" "\<And>j. j < i \<Longrightarrow> \<not> prefix sub (drop j s)"
  show ?thesis
  proof (cases "py_find sub s")
    case None
    with a(1) show ?thesis using py_find_None by blast
  next
    case (Some k)
    have "\<not> k < i" using py_find_SomeD [OF Some] a(3) by blast
    moreover have "\<not> i < k" using py_find_first [OF Some] a(1) by blast
    ultimately show ?thesis using Some by simp
  qed
qed

lemma prefix_take_iff: "prefix sub (take n xs) \<longleftrightarrow> prefix sub xs \<and> length sub \<le> n"
proof
  assume "prefix sub (take n xs)"
  then obtain zs where zs: "take n xs = sub @ zs" by (auto simp: prefix_def)
  then have "xs = sub @ zs @ drop n xs" by (metis append_assoc append_take_drop_id)
  moreover from zs have "length sub \<le> n"
    by (metis length_append length_take le_add1 min.cobounded2 order_trans)
  ultimately show "prefix sub xs \<and> length sub \<le> n" by (auto simp: prefix_def)
next
  assume "prefix sub xs \<and> length sub \<le> n"
  then obtain zs where "xs = sub @ zs" "length sub \<le> n" by (auto simp: prefix_def)
  then show "prefix sub (take n xs)" by simp
qed

lemma py_find_take:
  "py_find sub (take n s) =
     (case py_find sub s of None \<Rightarrow> None | Some k \<Rightarrow> if k + length sub \<le> n then Some k else None)"
proof (cases "py_find sub s")
  case None
  have "py_find sub (take n s) = None"
  proof (rule ccontr)
    assume "py_find sub (take n s) \<noteq> None"
    then obtain j where j: "py_find sub (take n s) = Some j" by auto
    from py_find_SomeD [OF j] have "prefix sub (take (n - j) (drop j s))"
      by (simp add: drop_take)
    then have "prefix sub (drop j s)" by (simp add: prefix_take_iff)
    with py_find_None [OF None] show False by blast
  qed
  with None show ?thesis by simp
next
  case (Some k)
  note k = py_find_SomeD [OF Some]
  show ?thesis
  proof (cases "k + length sub \<le> n")
    case True
    have "py_find sub (take n s) = Some k"
    proof (rule py_find_eqI)
      from True k show "prefix sub (drop k (take n s))"
        by (simp add: drop_take prefix_take_iff)
      from True k show "k \<le> length (take n s)" by simp
      fix j assume "j < k"
      then have "\<not> prefix sub (drop j s)" by (rule py_find_first [OF Some])
      then show "\<not> prefix sub (drop j (take n s))" by (simp add: drop_take prefix_take_iff)
    qed
    with Some True show ?thesis by simp
  next
    case False
    have "py_find sub (take n s) = None"
    proof (rule ccontr)
      assume "py_find sub (take n s) \<noteq> None"
      then obtain j where j: "py_find sub (take n s) = Some j" by auto
      from py_find_SomeD [OF j] have pj: "prefix sub (take (n - j) (drop j s))" "j \<le> n"
        by (simp_all add: drop_take)
      then have "prefix sub (drop j s)" "length sub \<le> n - j" by (simp_all add: prefix_take_iff)
      moreover have "\<not> j < k" using py_find_first [OF Some] calculation(1) by blast
      ultimately show False using False pj(2) by arith
    qed
    with Some False show ?thesis by simp
  qed
qed

lemma py_split_0: "sep \<noteq> [] \<Longrightarrow> py_index (py_split sep s) 0 = Inr (text_before sep s)"
  by (simp add: py_split.simps [of sep s] py_index_def text_before_def split: option.splits)

lemma py_split_1:
  "sep \<noteq> [] \<Longrightarrow> py_find sep s = Some i \<Longrightarrow>
   py_index (py_split sep s) 1 = Inr (text_before sep (drop (i + length sep) s))"
  by (simp add: py_split.simps [of sep s] py_split.simps [of sep "drop (i + length sep) s"]
      py_index_def text_before_def split: option.splits)

lemma py_split_1_None:
  "sep \<noteq> [] \<Longrightarrow> py_find sep s = None \<Longrightarrow> \<exists>m. py_index (py_split sep s) 1 = Inl (IndexError m)"
  by (simp add: py_split.simps [of sep s] py_index_def)

lemma first_piece_after_eq:
  "marker \<noteq> [] \<Longrightarrow> py_find marker t = Some i \<Longrightarrow>
   first_piece_after marker t =
     Inr (text_before ''```'' (text_before marker (drop (i + length marker) t)))"
proof -
  assume m: "marker \<noteq> []" and f: "py_find marker t = Some i"
  have "''```'' \<noteq> []" by simp
  then show ?thesis
    unfolding first_piece_after_def py_split_1 [OF m f] by (simp add: py_split_0)
qed

lemma text_before_idem: "text_before m (text_before m s) = text_before m s"
  by (auto simp: text_before_def py_find_take split: option.splits)

lemma py_find_prefix_le:
  assumes "prefix f m" and "py_find m r = Some q"
  shows "\<exists>k. py_find f r = Some k \<and> k \<le> q"
proof -
  from py_find_SomeD [OF assms(2)] assms(1) have p: "prefix f (drop q r)"
    using prefix_order.trans by blast
  show ?thesis
  proof (cases "py_find f r")
    case None
    with p show ?thesis using py_find_None by blast
  next
    case (Some k)
    have "\<not> q < k" using py_find_first [OF Some] p by blast
    with Some show ?thesis by simp
  qed
qed

lemma labelled_between:
  assumes "prefix f m" and "py_find f r = Some k"
    and "py_find m r \<noteq> Some (k + 1)" and "py_find m r \<noteq> Some (k + 2)" and "length f = 3"
  shows "text_before f (text_before m r) = take k r"
proof (cases "py_find m r")
  case None
  with assms(2) show ?thesis by (simp add: text_before_def)
next
  case (Some q)
  from py_find_prefix_le [OF assms(1) Some] assms(2) have kq: "k \<le> q" by simp
  show ?thesis
  proof (cases "k + 3 \<le> q")
    case True
    with Some assms(2,5) kq show ?thesis
      by (simp add: text_before_def py_find_take min_def)
  next
    case False
    from assms(3,4) Some have "q \<noteq> k + 1" "q \<noteq> k + 2" by auto
    with kq False have "q = k" by arith
    with Some assms(2,5) show ?thesis
      by (simp add: text_before_def py_find_take)
  qed
qed

lemma labelled_open:
  assumes "prefix f m" and "py_find f r = None"
  shows "text_before f (text_before m r) = r"
proof -
  have "py_find m r = None"
  proof (rule ccontr)
    assume "py_find m r \<noteq> None"
    then obtain q where "py_find m r = Some q" by auto
    from py_find_prefix_le [OF assms(1) this] assms(2) show False by simp
  qed
  with assms(2) show ?thesis by (simp add: text_before_def)
qed

lemma first_piece_after_total:
  "marker \<noteq> [] \<Longrightarrow> py_in marker t \<Longrightarrow> \<exists>c. first_piece_after marker t = Inr c"
  by (auto simp: py_in_def first_piece_after_eq)

lemma json_candidate_total: "\<exists>c. json_candidate t = Inr c"
proof -
  have "''```json'' \<noteq> []" "''```'' \<noteq> []" by simp_all
  then show ?thesis
    unfolding json_candidate_def
    using first_piece_after_total [of "''```json''" t] first_piece_after_total [of "''```''" t]
    by (auto split: sum.splits)
qed

lemma json_candidate_labelled:
  assumes "py_in ''```json'' t" and "fenced_body ''```json'' t = Some b"
    and "\<not> marker_overlaps ''```json'' t"
  shows "json_candidate t = Inr (py_strip b)"
proof -
  from assms(1) obtain i where i: "py_find ''```json'' t = Some i" by (auto simp: py_in_def)
  define r where "r = drop (i + length ''```json'') t"
  from i have ra: "rest_after ''```json'' t = Some r" by (simp add: rest_after_def r_def)
  with assms(2) obtain k where k: "py_find ''```'' r = Some k" "b = take k r"
    by (auto simp: fenced_body_def split: option.splits)
  from assms(3) ra k have no: "py_find ''```json'' r \<noteq> Some (k + 1)" "py_find ''```json'' r \<noteq> Some (k + 2)"
    by (simp_all add: marker_overlaps_def)
  have "text_before ''```'' (text_before ''```json'' r) = take k r"
    by (rule labelled_between [OF _ k(1) no]) simp_all
  moreover have "first_piece_after ''```json'' t = Inr (text_before ''```'' (text_before ''```json'' r))"
    unfolding r_def by (rule first_piece_after_eq [OF _ i]) simp
  ultimately show ?thesis using assms(1) k(2) by (simp add: json_candidate_def)
qed

lemma json_candidate_generic:
  assumes "\<not> py_in ''```json'' t" and "py_in ''```'' t" and "fenced_body ''```'' t = Some b"
  shows "json_candidate t = Inr (py_strip b)"
proof -
  from assms(2) obtain i where i: "py_find ''```'' t = Some i" by (auto simp: py_in_def)
  define r where "r = drop (i + length ''```'') t"
  from i have ra: "rest_after ''```'' t = Some r" by (simp add: rest_after_def r_def)
  with assms(3) obtain k where k: "py_find ''```'' r = Some k" "b = take k r"
    by (auto simp: fenced_body_def split: option.splits)
  have "first_piece_after ''```'' t = Inr (text_before ''```'' (text_before ''```'' r))"
    unfolding r_def by (rule first_piece_after_eq [OF _ i]) simp
  with k have "first_piece_after ''```'' t = Inr b"
    by (simp add: text_before_idem) (simp add: text_before_def)
  with assms(1,2) show ?thesis by (simp add: json_candidate_def)
qed

lemma candidate_unclosed:
  assumes "prefix ''```'' m" and "m \<noteq> []" and "rest_after m t = Some r" and "fenced_body m t = None"
  shows "first_piece_after m t = Inr r"
proof -
  from assms(3) obtain i where i: "py_find m t = Some i" "r = drop (i + length m) t"
    by (auto simp: rest_after_def)
  from assms(3,4) have n: "py_find ''```'' r = None"
    by (auto simp: fenced_body_def split: option.splits)
  have "first_piece_after m t = Inr (text_before ''```'' (text_before m r))"
    unfolding i(2) by (rule first_piece_after_eq [OF assms(2) i(1)])
  with labelled_open [OF assms(1) n] show ?thesis by simp
qed

lemma py_in_iff_sublist: "py_in sub s \<longleftrightarrow> sublist sub s"
proof
  assume "py_in sub s"
  then obtain i where "py_find sub s = Some i" by (auto simp: py_in_def)
  from py_find_SomeD [OF this] obtain zs where "drop i s = sub @ zs" by (auto simp: prefix_def)
  then have "s = take i s @ sub @ zs" by (metis append_take_drop_id)
  then show "sublist sub s" by (auto simp: sublist_def)
next
  assume "sublist sub s"
  then obtain ps ss where "s = ps @ sub @ ss" by (auto simp: sublist_def)
  then have "prefix sub (drop (length ps) s)" by simp
  then show "py_in sub s" unfolding py_in_def using py_find_None by blast
qed

lemma py_split_sublist: "sep \<noteq> [] \<Longrightarrow> l \<in> set (py_split sep s) \<Longrightarrow> sublist l s"
proof (induction sep s rule: py_split.induct)
  case (1 sep s)
  show ?case
  proof (cases "py_find sep s")
    case None
    with 1 show ?thesis by (simp add: py_split.simps [of sep s])
  next
    case (Some i)
    with 1(2,3) have "l = take i s \<or> l \<in> set (py_split sep (drop (i + length sep) s))"
      by (simp add: py_split.simps [of sep s])
    then show ?thesis
    proof
      assume "l = take i s"
      then show ?thesis by (metis append_take_drop_id sublist_appendI sublist_order.order.refl prefix_imp_sublist take_is_prefix)
    next
      assume "l \<in> set (py_split sep (drop (i + length sep) s))"
      with 1(1) [OF 1(2) Some] 1(2) have "sublist l (drop (i + length sep) s)" by simp
      then show ?thesis by (metis sublist_drop sublist_order.order.trans)
    qed
  qed
qed

lemma py_strip_sublist: "sublist (py_strip l) l"
proof -
  have "suffix (dropWhile py_isspace (rev (dropWhile py_isspace l))) (rev (dropWhile py_isspace l))"
    by (rule suffix_dropWhile)
  then have "prefix (py_strip l) (dropWhile py_isspace l)"
    by (simp add: py_strip_def suffix_to_prefix)
  moreover have "suffix (dropWhile py_isspace l) l" by (rule suffix_dropWhile)
  ultimately show ?thesis
    by (meson prefix_imp_sublist suffix_imp_sublist sublist_order.order.trans)
qed

lemma no_fence_line:
  assumes "\<not> py_in ''```'' s" and "l \<in> set (py_split ''\<newline>'' s)"
  shows "\<not> fence_line l"
proof
  assume "fence_line l"
  then have "sublist ''```'' (py_strip l)" by (simp add: fence_line_def prefix_imp_sublist)
  moreover have "sublist (py_strip l) l" by (rule py_strip_sublist)
  moreover from assms(2) have "sublist l s" by (rule py_split_sublist [rotated]) simp
  ultimately have "sublist ''```'' s" by (meson sublist_order.order.trans)
  with assms(1) show False by (simp add: py_in_iff_sublist)
qed

lemma py_join_split: "sep \<noteq> [] \<Longrightarrow> py_join sep (py_split sep s) = s"
proof (induction sep s rule: py_split.induct)
  case (1 sep s)
  show ?case
  proof (cases "py_find sep s")
    case None
    with 1(2) show ?thesis by (simp add: py_split.simps [of sep s])
  next
    case (Some i)
    define r where "r = drop (i + length sep) s"
    from 1(1) [OF 1(2) Some] 1(2) have ih: "py_join sep (py_split sep r) = r" by (simp add: r_def)
    obtain p ps where pp: "py_split sep r = p # ps"
      using 1(2) by (cases "py_split sep r") (auto simp: py_split.simps [of sep r] split: option.splits)
    from py_find_SomeD [OF Some] obtain zs where "drop i s = sep @ zs" by (auto simp: prefix_def)
    then have "s = take i s @ sep @ r"
      by (metis r_def add.commute append_eq_conv_conj append_take_drop_id drop_drop)
    moreover from Some 1(2) pp ih have "py_join sep (py_split sep s) = take i s @ sep @ r"
      by (simp add: py_split.simps [of sep s] r_def [symmetric])
    ultimately show ?thesis by simp
  qed
qed

lemma prefix_app_notin:
  assumes "c \<notin> set sub"
  shows "prefix sub (us @ c # ys) \<longleftrightarrow> prefix sub us"
proof
  assume "prefix sub (us @ c # ys)"
  then consider "prefix sub us" | vs where "sub = us @ vs" "prefix vs (c # ys)"
    by (auto simp: prefix_append)
  then show "prefix sub us"
  proof cases
    case 1
    then show ?thesis .
  next
    case 2
    with assms have "vs = []" by (cases vs) auto
    with 2 show ?thesis by simp
  qed
next
  assume "prefix sub us"
  then show "prefix sub (us @ c # ys)" by (simp add: prefix_prefix)
qed

lemma py_find_sep_char:
  assumes "c \<notin> set sub" and "sub \<noteq> []"
  shows "py_find sub (xs @ c # ys) =
     (case py_find sub xs of
        Some i \<Rightarrow> Some i
      | None \<Rightarrow> map_option (\<lambda>k. Suc (length xs) + k) (py_find sub ys))"
proof (induction xs)
  case Nil
  from assms have "\<not> prefix sub (c # ys)" using prefix_app_notin [of c sub "[]" ys] by simp
  with assms(2) show ?case by (cases "py_find sub ys") simp_all
next
  case (Cons x xs)
  have "prefix sub (x # xs @ c # ys) \<longleftrightarrow> prefix sub (x # xs)"
    using prefix_app_notin [OF assms(1), of "x # xs" ys] by simp
  with Cons show ?case
    by (cases "py_find sub ys") (auto split: option.splits)
qed

lemma py_find_char_None: "py_find [c] s = None \<longleftrightarrow> c \<notin> set s"
  by (induction s) auto

lemma py_find_char_take: "py_find [c] s = Some i \<Longrightarrow> c \<notin> set (take i s)"
proof (induction s arbitrary: i)
  case Nil
  then show ?case by simp
next
  case (Cons x xs)
  then show ?case by (cases "x = c") auto
qed

lemma py_find_char_app:
  "py_find [c] (xs @ c # ys) = (case py_find [c] xs of Some i \<Rightarrow> Some i | None \<Rightarrow> Some (length xs))"
  by (induction xs) (auto split: option.splits)

lemma py_split_char_app: "py_split [c] (xs @ c # ys) = py_split [c] xs @ py_split [c] ys"
proof (induction xs rule: length_induct)
  case (1 xs)
  show ?case
  proof (cases "py_find [c] xs")
    case None
    then show ?thesis
      by (simp add: py_split.simps [of "[c]" "xs @ c # ys"] py_split.simps [of "[c]" xs]
          py_find_char_app)
  next
    case (Some i)
    from py_find_bound [OF Some] have i: "Suc i \<le> length xs" by simp
    then have "length (drop (Suc i) xs) < length xs" by simp
    with 1 have "py_split [c] (drop (Suc i) xs @ c # ys) =
        py_split [c] (drop (Suc i) xs) @ py_split [c] ys" by blast
    with Some i show ?thesis
      by (simp add: py_split.simps [of "[c]" "xs @ c # ys"] py_split.simps [of "[c]" xs]
          py_find_char_app)
  qed
qed

lemma py_split_char_free: "l \<in> set (py_split [c] s) \<Longrightarrow> c \<notin> set l"
proof (induction s arbitrary: l rule: length_induct)
  case (1 s)
  show ?case
  proof (cases "py_find [c] s")
    case None
    with 1(2) show ?thesis by (simp add: py_split.simps [of "[c]" s] py_find_char_None)
  next
    case (Some i)
    from py_find_bound [OF Some] have "length (drop (Suc i) s) < length s" by simp
    with 1(1) have "\<And>l. l \<in> set (py_split [c] (drop (Suc i) s)) \<Longrightarrow> c \<notin> set l" by blast
    with 1(2) Some py_find_char_take [OF Some] show ?thesis
      by (auto simp: py_split.simps [of "[c]" s])
  qed
qed

lemma py_split_join_char:
  "ls \<noteq> [] \<Longrightarrow> (\<And>l. l \<in> set ls \<Longrightarrow> c \<notin> set l) \<Longrightarrow> py_split [c] (py_join [c] ls) = ls"
proof (induction "[c]" ls rule: py_join.induct)
  case 1
  then show ?case by simp
next
  case (2 x)
  then have "py_find [c] x = None" by (simp add: py_find_char_None)
  then show ?case by (simp add: py_split.simps [of "[c]" x])
next
  case (3 x y ys)
  from 3(3) have "py_find [c] x = None" by (simp add: py_find_char_None)
  then have "py_split [c] x = [x]" by (simp add: py_split.simps [of "[c]" x])
  moreover from 3 have "py_split [c] (py_join [c] (y # ys)) = y # ys" by simp
  ultimately show ?case by (simp add: py_split_char_app)
qed

lemma py_strip_Cons_space: "py_isspace c \<Longrightarrow> py_strip (c # s) = py_strip s"
  by (simp add: py_strip_def)

lemma py_strip_snoc_space:
  assumes "py_isspace c"
  shows "py_strip (s @ [c]) = py_strip s"
proof (cases "\<forall>x\<in>set s. py_isspace x")
  case True
  with assms have "dropWhile py_isspace (s @ [c]) = []" "dropWhile py_isspace s = []"
    by (simp_all add: dropWhile_eq_Nil_conv)
  then show ?thesis by (simp only: py_strip_def)
next
  case False
  then have "dropWhile py_isspace (s @ [c]) = dropWhile py_isspace s @ [c]"
    by (simp add: dropWhile_append)
  with assms show ?thesis by (simp add: py_strip_def)
qed

lemma newline_space: "py_isspace CHR ''\<newline>''"
  by (simp add: py_isspace_def)

lemma strip_csv_fences_total: "\<exists>c. strip_csv_fences t = Inr c"
proof -
  have "''```csv'' \<noteq> []" by simp
  then show ?thesis
    unfolding strip_csv_fences_def
    using first_piece_after_total [of "''```csv''" t]
    by (auto split: sum.splits)
qed

lemma strip_csv_fences_labelled:
  assumes "py_in ''```csv'' t" and "fenced_body ''```csv'' t = Some b"
    and "\<not> marker_overlaps ''```csv'' t"
  shows "strip_csv_fences t = Inr (py_strip b)"
proof -
  from assms(1) obtain i where i: "py_find ''```csv'' t = Some i" by (auto simp: py_in_def)
  define r where "r = drop (i + length ''```csv'') t"
  from i have ra: "rest_after ''```csv'' t = Some r" by (simp add: rest_after_def r_def)
  with assms(2) obtain k where k: "py_find ''```'' r = Some k" "b = take k r"
    by (auto simp: fenced_body_def split: option.splits)
  from assms(3) ra k have no: "py_find ''```csv'' r \<noteq> Some (k + 1)" "py_find ''```csv'' r \<noteq> Some (k + 2)"
    by (simp_all add: marker_overlaps_def)
  have "text_before ''```'' (text_before ''```csv'' r) = take k r"
    by (rule labelled_between [OF _ k(1) no]) simp_all
  moreover have "first_piece_after ''```csv'' t = Inr (text_before ''```'' (text_before ''```csv'' r))"
    unfolding r_def by (rule first_piece_after_eq [OF _ i]) simp
  ultimately show ?thesis using assms(1) k(2) by (simp add: strip_csv_fences_def)
qed

lemma no_csv_marker: "py_find ''```'' s = None \<Longrightarrow> py_find ''```csv'' s = None"
proof (rule ccontr)
  assume a: "py_find ''```'' s = None" "py_find ''```csv'' s \<noteq> None"
  then obtain q where q: "py_find ''```csv'' s = Some q" by auto
  have "prefix ''```'' ''```csv''" by simp
  from py_find_prefix_le [OF this q] a(1) show False by simp
qed

section \<open>Properties of the reply parser\<close>

lemma has_brace_pair_iff:
  "has_brace_pair s \<longleftrightarrow> (\<exists>xs ys zs. s = xs @ CHR ''{'' # ys @ CHR ''}'' # zs)"
proof
  assume h: "has_brace_pair s"
  let ?P = "\<lambda>c. c \<noteq> CHR ''{''"
  have ne: "dropWhile ?P s \<noteq> []"
  proof
    assume "dropWhile ?P s = []"
    with h show False by (simp only: has_brace_pair_def) simp
  qed
  then obtain d ds where d: "dropWhile ?P s = d # ds" by (cases "dropWhile ?P s") auto
  with hd_dropWhile [OF ne] have "d = CHR ''{''" by simp
  with h d have "CHR ''}'' \<in> set ds" by (auto simp: has_brace_pair_def)
  then obtain ys zs where "ds = ys @ CHR ''}'' # zs" by (auto dest: split_list)
  with d \<open>d = CHR ''{''\<close> have "s = takeWhile ?P s @ CHR ''{'' # ys @ CHR ''}'' # zs"
    by (metis takeWhile_dropWhile_id)
  then show "\<exists>xs ys zs. s = xs @ CHR ''{'' # ys @ CHR ''}'' # zs" by blast
next
  assume "\<exists>xs ys zs. s = xs @ CHR ''{'' # ys @ CHR ''}'' # zs"
  then obtain xs ys zs where s: "s = xs @ CHR ''{'' # ys @ CHR ''}'' # zs" by blast
  show "has_brace_pair s"
    unfolding has_brace_pair_def s by (auto simp: dropWhile_append)
qed

lemma has_brace_pair_sublist: "has_brace_pair c \<Longrightarrow> sublist c t \<Longrightarrow> has_brace_pair t"
proof -
  assume "has_brace_pair c" and "sublist c t"
  then obtain xs ys zs ps ss where "c = xs @ CHR ''{'' # ys @ CHR ''}'' # zs" "t = ps @ c @ ss"
    by (auto simp: has_brace_pair_iff sublist_def)
  then have "t = (ps @ xs) @ CHR ''{'' # ys @ CHR ''}'' # (zs @ ss)" by simp
  then show ?thesis unfolding has_brace_pair_iff by blast
qed

lemma no_json_marker: "py_find ''```'' s = None \<Longrightarrow> py_find ''```json'' s = None"
proof (rule ccontr)
  assume a: "py_find ''```'' s = None" "py_find ''```json'' s \<noteq> None"
  then obtain q where q: "py_find ''```json'' s = Some q" by auto
  have "prefix ''```'' ''```json''" by simp
  from py_find_prefix_le [OF this q] a(1) show False by simp
qed

lemma py_find_char: "py_find [c] s = (if c \<in> set s then Some (length (takeWhile (\<lambda>x. x \<noteq> c) s)) else None)"
  by (induction s) auto

lemma py_rfind_char_None: "py_rfind [c] s = None \<longleftrightarrow> c \<notin> set s"
  by (induction s) (auto split: option.splits)

lemma py_rfind_char_Some:
  "py_rfind [c] s = Some j \<Longrightarrow> j < length s \<and> s ! j = c \<and> c \<notin> set (drop (Suc j) s)"
proof (induction s arbitrary: j)
  case Nil
  then show ?case by simp
next
  case (Cons x xs)
  show ?case
  proof (cases "py_rfind [c] xs")
    case None
    with Cons.prems have "x = c" "j = 0" by (auto split: if_splits)
    with None show ?thesis by (simp add: py_rfind_char_None)
  next
    case (Some i)
    with Cons.prems have "j = Suc i" by simp
    with Cons.IH [OF Some] show ?thesis by simp
  qed
qed

lemma py_rfind_char_app: "c \<notin> set ys \<Longrightarrow> py_rfind [c] (xs @ c # ys) = Some (length xs)"
  by (induction xs) (auto simp: py_rfind_char_None split: option.splits)

lemma brace_test_iff:
  "(find_result (py_find ''{'' s) \<noteq> - 1 \<and>
    find_result (py_rfind ''}'' s) + 1 > find_result (py_find ''{'' s)) \<longleftrightarrow> has_brace_pair s"
proof (cases "CHR ''{'' \<in> set s")
  case False
  then have "\<not> has_brace_pair s" unfolding has_brace_pair_def by (induction s) auto
  with False show ?thesis by (simp add: py_find_char find_result_def)
next
  case True
  let ?P = "\<lambda>x. x \<noteq> CHR ''{''"
  let ?i = "length (takeWhile ?P s)"
  have start: "find_result (py_find ''{'' s) = int ?i" using True by (simp add: py_find_char find_result_def)
  have dw: "dropWhile ?P s = drop ?i s" by (simp add: dropWhile_eq_drop)
  show ?thesis
  proof (cases "py_rfind ''}'' s")
    case None
    then have "CHR ''}'' \<notin> set s" by (simp add: py_rfind_char_None)
    then have "CHR ''}'' \<notin> set (dropWhile ?P s)" by (meson set_dropWhileD)
    with None start show ?thesis by (simp add: find_result_def has_brace_pair_def)
  next
    case (Some j)
    note j = py_rfind_char_Some [OF Some]
    have "has_brace_pair s \<longleftrightarrow> ?i \<le> j"
    proof
      assume "has_brace_pair s"
      then have "CHR ''}'' \<in> set (drop ?i s)" by (simp add: has_brace_pair_def dw)
      show "?i \<le> j"
      proof (rule ccontr)
        assume "\<not> ?i \<le> j"
        then have "Suc j \<le> ?i" by simp
        then have "set (drop ?i s) \<subseteq> set (drop (Suc j) s)" by (rule set_drop_subset_set_drop)
        with \<open>CHR ''}'' \<in> set (drop ?i s)\<close> j show False by blast
      qed
    next
      assume "?i \<le> j"
      with j have "drop ?i s ! (j - ?i) = s ! j" "j - ?i < length (drop ?i s)" by (simp, auto)
      then have "s ! j \<in> set (drop ?i s)" by (metis nth_mem)
      with j show "has_brace_pair s" by (simp add: has_brace_pair_def dw)
    qed
    with Some start show ?thesis by (simp add: find_result_def)
  qed
qed

lemma text_before_sublist: "sublist (text_before m s) s"
  by (auto simp: text_before_def split: option.splits intro: prefix_imp_sublist take_is_prefix)

lemma first_piece_after_sublist:
  assumes "marker \<noteq> []" and "first_piece_after marker t = Inr x"
  shows "sublist x t"
proof (cases "py_find marker t")
  case None
  from py_split_1_None [OF assms(1) None] assms(2) show ?thesis
    by (auto simp: first_piece_after_def)
next
  case (Some i)
  let ?r = "drop (i + length marker) t"
  from first_piece_after_eq [OF assms(1) Some] assms(2)
  have "x = text_before ''```'' (text_before marker ?r)" by simp
  then have "sublist x (text_before marker ?r)" by (simp add: text_before_sublist)
  moreover have "sublist (text_before marker ?r) ?r" by (rule text_before_sublist)
  moreover have "sublist ?r t" by (rule sublist_drop)
  ultimately show ?thesis by (meson sublist_order.order.trans)
qed

lemma json_candidate_sublist:
  assumes "json_candidate t = Inr c"
  shows "sublist c t"
proof -
  from assms obtain x where x: "c = py_strip x" "sublist x t"
    unfolding json_candidate_def
    using first_piece_after_sublist [of "''```json''" t] first_piece_after_sublist [of "''```''" t]
    by (auto split: sum.splits if_splits)
  with py_strip_sublist [of x] show ?thesis by (meson sublist_order.order.trans)
qed

lemma parse_reply_no_braces:
  assumes "\<not> has_brace_pair t" and "json_candidate t = Inr c"
    and "loads c = Inl (JSONDecodeError m)"
  shows "parse_reply loads t = NoJson"
proof -
  from assms(1) json_candidate_sublist [OF assms(2)] have "\<not> has_brace_pair c"
    using has_brace_pair_sublist by blast
  then have "\<not> (find_result (py_find ''{'' c) \<noteq> - 1 \<and>
    find_result (py_rfind ''}'' c) + 1 > find_result (py_find ''{'' c))"
    by (simp only: brace_test_iff not_False_eq_True)
  with assms(2,3) show ?thesis by (auto simp: parse_reply_def Let_def)
qed

lemma dropWhile_app_keep: "ys \<noteq> [] \<Longrightarrow> \<not> P (hd ys) \<Longrightarrow> dropWhile P (xs @ ys) = dropWhile P xs @ ys"
  by (induction xs) (auto simp: neq_Nil_conv)

lemma py_strip_around:
  assumes "obj \<noteq> []" and "\<not> py_isspace (hd obj)" and "\<not> py_isspace (last obj)"
  shows "py_strip (pre @ obj @ post) =
         dropWhile py_isspace pre @ obj @ rev (dropWhile py_isspace (rev post))"
proof -
  from assms have "dropWhile py_isspace (pre @ obj @ post) = dropWhile py_isspace pre @ obj @ post"
    by (simp add: dropWhile_app_keep)
  moreover from assms have
    "dropWhile py_isspace (rev post @ rev obj @ rev (dropWhile py_isspace pre)) =
     dropWhile py_isspace (rev post) @ rev obj @ rev (dropWhile py_isspace pre)"
    by (simp add: dropWhile_app_keep hd_rev)
  ultimately show ?thesis by (simp add: py_strip_def)
qed

lemma brace_slice:
  assumes "CHR ''{'' \<notin> set p" and "CHR ''}'' \<notin> set q"
  shows "py_slice (p @ CHR ''{'' # mid @ CHR ''}'' # q)
           (find_result (py_find ''{'' (p @ CHR ''{'' # mid @ CHR ''}'' # q)))
           (find_result (py_rfind ''}'' (p @ CHR ''{'' # mid @ CHR ''}'' # q)) + 1)
         = CHR ''{'' # mid @ [CHR ''}'']"
    and "has_brace_pair (p @ CHR ''{'' # mid @ CHR ''}'' # q)"
proof -
  let ?s = "p @ CHR ''{'' # mid @ CHR ''}'' # q"
  from assms(1) have "py_find ''{'' p = None" by (simp add: py_find_char_None)
  then have f: "py_find ''{'' ?s = Some (length p)"
    by (simp add: py_find_char_app)
  have "py_rfind ''}'' ((p @ CHR ''{'' # mid) @ CHR ''}'' # q) = Some (length (p @ CHR ''{'' # mid))"
    using assms(2) by (rule py_rfind_char_app)
  then have r: "py_rfind ''}'' ?s = Some (length p + Suc (length mid))" by simp
  show "py_slice ?s (find_result (py_find ''{'' ?s)) (find_result (py_rfind ''}'' ?s) + 1)
         = CHR ''{'' # mid @ [CHR ''}'']"
  proof -
    have "nat (2 + int (length mid)) = Suc (Suc (length mid))" by simp
    then show ?thesis
      unfolding f r by (simp add: py_slice_def find_result_def Let_def)
  qed
  show "has_brace_pair ?s" unfolding has_brace_pair_iff by blast
qed

lemma parse_reply_embedded:
  assumes "\<not> py_in ''```'' t" and "t = pre @ obj @ post"
    and "CHR ''{'' \<notin> set pre" and "CHR ''}'' \<notin> set post"
    and "obj = CHR ''{'' # mid @ [CHR ''}'']" and "loads obj = Inr a"
    and "py_strip t = obj \<or> (\<exists>m. loads (py_strip t) = Inl (JSONDecodeError m))"
  shows "parse_reply loads t = Returned a"
    and "py_slice (py_strip t) (find_result (py_find ''{'' (py_strip t)))
           (find_result (py_rfind ''}'' (py_strip t)) + 1) = obj"
proof -
  let ?p = "dropWhile py_isspace pre" and ?q = "rev (dropWhile py_isspace (rev post))"
  have "\<not> py_in ''```json'' t"
    using assms(1) no_json_marker by (auto simp: py_in_def)
  with assms(1) have cand: "json_candidate t = Inr (py_strip t)" by (simp add: json_candidate_def)
  have sp: "\<not> py_isspace CHR ''{''" "\<not> py_isspace CHR ''}''" by (simp_all add: py_isspace_def)
  with assms(5) have st: "py_strip t = ?p @ CHR ''{'' # mid @ CHR ''}'' # ?q"
    unfolding assms(2) using py_strip_around [of obj pre post] by simp
  have p: "CHR ''{'' \<notin> set ?p" using assms(3) by (meson set_dropWhileD)
  have q: "CHR ''}'' \<notin> set ?q" using assms(4) by (metis set_dropWhileD set_rev)
  from brace_slice [OF p q, of mid] st assms(5)
  have sl: "py_slice (py_strip t) (find_result (py_find ''{'' (py_strip t)))
           (find_result (py_rfind ''}'' (py_strip t)) + 1) = obj"
    and hb: "has_brace_pair (py_strip t)" by simp_all
  show "py_slice (py_strip t) (find_result (py_find ''{'' (py_strip t)))
           (find_result (py_rfind ''}'' (py_strip t)) + 1) = obj" by (rule sl)
  from hb have test: "find_result (py_find ''{'' (py_strip t)) \<noteq> - 1 \<and>
    find_result (py_rfind ''}'' (py_strip t)) + 1 > find_result (py_find ''{'' (py_strip t))"
    by (simp only: brace_test_iff)
  from assms(7) show "parse_reply loads t = Returned a"
  proof
    assume "py_strip t = obj"
    with cand assms(6) show ?thesis by (simp add: parse_reply_def)
  next
    assume "\<exists>m. loads (py_strip t) = Inl (JSONDecodeError m)"
    then obtain m where "loads (py_strip t) = Inl (JSONDecodeError m)" by blast
    with cand test sl assms(6) show ?thesis by (simp add: parse_reply_def Let_def)
  qed
qed

section \<open>Properties of the tables and the handlers\<close>

lemma strip_csv_fences_unclosed:
  assumes "rest_after ''```csv'' t = Some r" and "fenced_body ''```csv'' t = None"
  shows "strip_csv_fences t = Inr (py_strip r)"
proof -
  from assms(1) have "py_in ''```csv'' t" by (auto simp: rest_after_def py_in_def)
  moreover from assms have "first_piece_after ''```csv'' t = Inr r"
    by (intro candidate_unclosed) simp_all
  ultimately show ?thesis by (simp add: strip_csv_fences_def)
qed

lemma kept_lines:
  assumes "ls = filter (\<lambda>l. \<not> fence_line l) (py_split ''\<newline>'' t)" and "ls \<noteq> []"
  shows "py_split ''\<newline>'' (py_join ''\<newline>'' ls) = ls"
proof (rule py_split_join_char [OF assms(2)])
  fix l assume "l \<in> set ls"
  with assms(1) have "l \<in> set (py_split ''\<newline>'' t)" by simp
  then show "CHR ''\<newline>'' \<notin> set l" by (rule py_split_char_free)
qed

lemma clean_data_reply:
  assumes "join_issues issues = Inr j"
    and "chat L c (cleaning_request j (to_csv L df)) = Inr (Some w)"
    and "strip_csv_fences w = Inr text"
  shows "clean_data L (Some c) df issues = (Some text, [], [cleaning_request j (to_csv L df)])"
  using assms by (simp add: clean_data_def Let_def)

lemma clean_clicked_parsed:
  assumes "py_getitem a ''issues'' = Inr issues"
    and "clean_data L cl df issues = (Some text, out, reqs)" and "text \<noteq> []"
    and "read_csv L text = Inr tbl"
  shows "state (clean_clicked L cl df S a) = S\<lparr>cleaned_data := Some text, cleaned_df := Some tbl\<rparr>"
  using assms by (simp add: clean_clicked_def Let_def)

lemma duplicated_scan_length: "length (duplicated_scan seen rs) = length rs"
  by (induction rs arbitrary: seen) simp_all

lemma duplicated_scan_nth:
  "i < length rs \<Longrightarrow> duplicated_scan seen rs ! i \<longleftrightarrow> rs ! i \<in> set seen \<union> set (take i rs)"
proof (induction rs arbitrary: seen i)
  case Nil
  then show ?case by simp
next
  case (Cons r rs)
  show ?case
  proof (cases i)
    case 0
    then show ?thesis by simp
  next
    case (Suc k)
    with Cons.prems have "k < length rs" by simp
    from Cons.IH [OF this, of "r # seen"] Suc show ?thesis by auto
  qed
qed

lemma duplicated_scan_count:
  "length (filter (\<lambda>b. b) (duplicated_scan seen rs)) + card (set rs - set seen) = length rs"
proof (induction rs arbitrary: seen)
  case Nil
  then show ?case by simp
next
  case (Cons r rs)
  have fin: "finite (set rs - set (r # seen))" by simp
  let ?n = "length (filter (\<lambda>b. b) (duplicated_scan (r # seen) rs))"
  from Cons [of "r # seen"] have ih: "?n + card (set rs - set (r # seen)) = length rs" .
  show ?case
  proof (cases "r \<in> set seen")
    case True
    then have eq: "set (r # rs) - set seen = set rs - set (r # seen)" by auto
    from True have "length (filter (\<lambda>b. b) (duplicated_scan seen (r # rs))) = Suc ?n" by simp
    with ih show ?thesis unfolding eq by simp
  next
    case False
    then have s: "set (r # rs) - set seen = insert r (set rs - set (r # seen))" by auto
    have "r \<notin> set rs - set (r # seen)" by simp
    with fin have "card (insert r (set rs - set (r # seen))) = Suc (card (set rs - set (r # seen)))"
      by (rule card_insert_disjoint)
    then have eq: "card (set (r # rs) - set seen) = Suc (card (set rs - set (r # seen)))"
      unfolding s .
    from False have "length (filter (\<lambda>b. b) (duplicated_scan seen (r # rs))) = ?n" by simp
    with ih show ?thesis unfolding eq by simp
  qed
qed

lemma earlier_equal_row: "i < length rs \<Longrightarrow> rs ! i \<in> set (take i rs) \<longleftrightarrow> (\<exists>j<i. rs ! j = rs ! i)"
  by (auto simp: in_set_conv_nth)

lemma analyze_data_sent:
  "snd (snd (analyze_data L (Some c) d)) = [analysis_request (to_csv L d)]"
  by (simp add: analyze_data_def Let_def split: sum.splits option.splits parsed.splits)

lemma analyze_clicked_sent:
  "sent (analyze_clicked L (Some c) df S) = [analysis_request (to_csv L (head 100 df))]"
  using analyze_data_sent [of L c "head 100 df"]
  by (auto simp: analyze_clicked_def Let_def split: prod.splits)

lemma analysis_tab_analyze_sent:
  "sent (analysis_tab L (Some c) df ClickAnalyze S) = sent (analyze_clicked L (Some c) df S)"
  by (simp add: analysis_tab_def Let_def split: option.splits prod.splits)

lemma analyze_data_parsed:
  assumes "chat L c (analysis_request (to_csv L df)) = Inr (Some t)"
  shows "analyze_data L (Some c) df =
     (case parse_reply (json_loads L) t of
        Returned a \<Rightarrow> (a, [], [analysis_request (to_csv L df)])
      | NoJson \<Rightarrow> (JNull, [Notice Err ''Could not parse AI response. Please try again.''],
                   [analysis_request (to_csv L df)])
      | Raised e \<Rightarrow> (JNull, [Notice Err (''Analysis error: '' @ str_exn e)],
                     [analysis_request (to_csv L df)]))"
  using assms by (simp add: analyze_data_def Let_def split: parsed.splits)

lemma display_needs_summary:
  assumes "map_of kvs ''summary'' = None"
    and "severity_color (case map_of kvs ''severity'' of None \<Rightarrow> JStr ''medium'' | Some v \<Rightarrow> v) = Inr ic"
  shows "display_analysis (JObj kvs) = ([], Some (KeyError ''summary''))"
  using assms by (simp add: display_analysis_def)

lemma clean_clicked_parse_failure:
  assumes "py_getitem a ''issues'' = Inr issues"
    and "clean_data L cl df issues = (Some text, out, reqs)" and "text \<noteq> []"
    and "read_csv L text = Inl e"
  shows "clean_clicked L cl df S a =
     \<lparr>state = S\<lparr>cleaned_data := Some text\<rparr>,
      shown = out @ [Notice Err (''Error parsing cleaned data: '' @ str_exn e)],
      sent = reqs, raised = None\<rparr>"
  using assms by (simp add: clean_clicked_def Let_def)

section \<open>A CSV text wrapped in a fenced block\<close>

lemma py_strip_blank_left: "blank u \<Longrightarrow> py_strip (u @ s) = py_strip s"
  by (induction u) (simp_all add: blank_def py_strip_Cons_space)

lemma py_strip_blank_right: "blank u \<Longrightarrow> py_strip (s @ u) = py_strip s"
proof (induction u rule: rev_induct)
  case Nil
  then show ?case by simp
next
  case (snoc c u)
  then have "py_isspace c" and "blank u" by (simp_all add: blank_def)
  with snoc.IH py_strip_snoc_space [of c "s @ u"] show ?case by simp
qed

lemma blank_disjoint:
  assumes "blank u" and "\<And>c. c \<in> set sub \<Longrightarrow> \<not> py_isspace c"
  shows "set u \<inter> set sub = {}"
  using assms by (auto simp: blank_def list_all_iff)

lemma py_find_skip:
  assumes "set us \<inter> set sub = {}" and "sub \<noteq> []"
  shows "py_find sub (us @ ys) = map_option (\<lambda>k. length us + k) (py_find sub ys)"
  using assms(1)
proof (induction us)
  case Nil
  then show ?case by (simp add: option.map_ident)
next
  case (Cons c us)
  then have c: "c \<notin> set sub" and d: "set us \<inter> set sub = {}" by auto
  from c assms(2) have "\<not> prefix sub (c # us @ ys)" by (cases sub) auto
  with Cons.IH [OF d] show ?case by (simp add: option.map_comp comp_def)
qed

lemma fence_chars: "c \<in> set ''```csv'' \<Longrightarrow> \<not> py_isspace c"
  by (auto simp: py_isspace_def)

lemma fence_chars3: "c \<in> set ''```'' \<Longrightarrow> \<not> py_isspace c"
  by (auto simp: py_isspace_def)

lemma no_marker_after_fence:
  assumes "blank tail"
  shows "py_find ''```csv'' (''```'' @ tail) = None"
proof (rule ccontr)
  assume "py_find ''```csv'' (''```'' @ tail) \<noteq> None"
  then have "sublist ''```csv'' (''```'' @ tail)" by (simp add: py_in_iff_sublist [symmetric] py_in_def)
  then have "set ''```csv'' \<subseteq> set (''```'' @ tail)" by (rule set_mono_sublist)
  then have "CHR ''c'' \<in> set tail" by auto
  with assms show False by (auto simp: blank_def list_all_iff py_isspace_def)
qed

lemma wrapped_labelled:
  assumes "blank lead" and "blank w1" and "blank w2" and "w2 \<noteq> []" and "blank tail"
    and "\<not> py_in ''```'' csv"
  shows "strip_csv_fences (labelled_block lead w1 csv w2 tail) = Inr (py_strip csv)"
proof -
  let ?r = "w1 @ csv @ w2 @ ''```'' @ tail"
  let ?t = "lead @ ''```csv'' @ ?r"
  have d6: "set u \<inter> set ''```csv'' = {}" if "blank u" for u
    using that by (rule blank_disjoint) (rule fence_chars)
  have d3: "set u \<inter> set ''```'' = {}" if "blank u" for u
    using that by (rule blank_disjoint) (rule fence_chars3)
  from assms(6) have n: "py_find ''```'' csv = None" by (simp add: py_in_def)
  then have nc: "py_find ''```csv'' csv = None" by (rule no_csv_marker)
  from assms(4) obtain c w2' where w2: "w2 = c # w2'" by (cases w2) auto
  with assms(3) have c: "py_isspace c" and bw: "blank w2'" by (simp_all add: blank_def)
  from c have c3: "c \<notin> set ''```''" and c6: "c \<notin> set ''```csv''"
    using fence_chars3 fence_chars by blast+
  have f0: "py_find ''```csv'' ?t = Some (length lead)"
    using py_find_skip [OF d6 [OF assms(1)], of "''```csv'' @ ?r"] by simp
  then have ra: "rest_after ''```csv'' ?t = Some ?r" by (simp add: rest_after_def)
  have "py_find ''```'' (w2' @ ''```'' @ tail) = Some (length w2')"
    using py_find_skip [OF d3 [OF bw], of "''```'' @ tail"] by simp
  then have "py_find ''```'' (csv @ c # w2' @ ''```'' @ tail) = Some (Suc (length csv) + length w2')"
    using py_find_sep_char [OF c3, of csv "w2' @ ''```'' @ tail"] n by simp
  then have k: "py_find ''```'' ?r = Some (length (w1 @ csv @ w2))"
    using py_find_skip [OF d3 [OF assms(2)], of "csv @ w2 @ ''```'' @ tail"] by (simp add: w2)
  have "py_find ''```csv'' (w2' @ ''```'' @ tail) = None"
    using py_find_skip [OF d6 [OF bw], of "''```'' @ tail"] no_marker_after_fence [OF assms(5)]
    by simp
  then have "py_find ''```csv'' (csv @ c # w2' @ ''```'' @ tail) = None"
    using py_find_sep_char [OF c6, of csv "w2' @ ''```'' @ tail"] nc by simp
  then have m: "py_find ''```csv'' ?r = None"
    using py_find_skip [OF d6 [OF assms(2)], of "csv @ w2 @ ''```'' @ tail"] by (simp add: w2)
  from ra k have fb: "fenced_body ''```csv'' ?t = Some (w1 @ csv @ w2)"
    by (simp add: fenced_body_def)
  from ra k m have ov: "\<not> marker_overlaps ''```csv'' ?t" by (simp add: marker_overlaps_def)
  from f0 have "py_in ''```csv'' ?t" by (simp add: py_in_def)
  from strip_csv_fences_labelled [OF this fb ov]
  have "strip_csv_fences ?t = Inr (py_strip (w1 @ csv @ w2))" .
  also have "py_strip (w1 @ csv @ w2) = py_strip csv"
    using py_strip_blank_left [OF assms(2), of "csv @ w2"] py_strip_blank_right [OF assms(3), of csv]
    by simp
  finally show ?thesis by (simp add: labelled_block_def)
qed

lemma py_join_Cons: "py_join sep (x # xs) = (if xs = [] then x else x @ sep @ py_join sep xs)"
  by (cases xs) simp_all

lemma py_join_snoc: "py_join sep (xs @ [y]) = (if xs = [] then y else py_join sep xs @ sep @ y)"
  by (induction xs) (simp_all add: py_join_Cons)

lemma py_split_nonempty: "py_split [n] s \<noteq> []"
  by (simp add: py_split.simps [of "[n]" s] split: option.splits)

lemma py_split_line: "n \<notin> set s \<Longrightarrow> py_split [n] s = [s]"
  using py_find_char_None [of n s] by (simp add: py_split.simps [of "[n]" s])

lemma py_split_nl_Cons: "py_split [n] (n # s) = [] # py_split [n] s"
  using py_split_char_app [of n "[]" s] by (simp add: py_split_line)

lemma py_split_Cons:
  assumes "c \<noteq> n"
  shows "py_split [n] (c # s) = (c # hd (py_split [n] s)) # tl (py_split [n] s)"
proof (cases "py_find [n] s")
  case None
  with assms show ?thesis
    by (simp add: py_split.simps [of "[n]" "c # s"] py_split.simps [of "[n]" s])
next
  case (Some i)
  with assms show ?thesis
    by (simp add: py_split.simps [of "[n]" "c # s"] py_split.simps [of "[n]" s])
qed

lemma py_split_nl_snoc: "py_split [n] (s @ [n]) = py_split [n] s @ [[]]"
  using py_split_char_app [of n s "[]"] by (simp add: py_split_line)

lemma py_split_snoc:
  assumes "c \<noteq> n"
  shows "py_split [n] (s @ [c]) = butlast (py_split [n] s) @ [last (py_split [n] s) @ [c]]"
proof (cases "n \<in> set s")
  case False
  with assms show ?thesis by (simp add: py_split_line)
next
  case True
  then obtain ys zs where s: "s = ys @ n # zs" and z: "n \<notin> set zs" by (meson split_list_last)
  from z assms have "n \<notin> set (zs @ [c])" by simp
  then have "py_split [n] (zs @ [c]) = [zs @ [c]]" by (rule py_split_line)
  then have "py_split [n] (ys @ n # (zs @ [c])) = py_split [n] ys @ [zs @ [c]]"
    by (simp only: py_split_char_app)
  moreover from z have "py_split [n] zs = [zs]" by (rule py_split_line)
  then have "py_split [n] (ys @ n # zs) = py_split [n] ys @ [zs]"
    by (simp only: py_split_char_app)
  ultimately show ?thesis by (simp add: s)
qed

lemma fence_line_Cons: "py_isspace c \<Longrightarrow> fence_line (c # l) = fence_line l"
  by (simp add: fence_line_def py_strip_Cons_space)

lemma fence_line_snoc: "py_isspace c \<Longrightarrow> fence_line (l @ [c]) = fence_line l"
  by (simp add: fence_line_def py_strip_snoc_space)

lemma fence_line_Nil: "\<not> fence_line []"
  by (simp add: fence_line_def py_strip_def)

lemma kept_text_Cons:
  assumes "py_isspace c"
  shows "py_strip (kept_text (c # t)) = py_strip (kept_text t)"
proof (cases "c = CHR ''\<newline>''")
  case True
  let ?F = "filter (\<lambda>l. \<not> fence_line l) (py_split ''\<newline>'' t)"
  have "kept_text (c # t) = py_join ''\<newline>'' ([] # ?F)"
    by (simp add: kept_text_def True py_split_nl_Cons fence_line_Nil)
  also have "\<dots> = (if ?F = [] then [] else CHR ''\<newline>'' # py_join ''\<newline>'' ?F)"
    by (simp add: py_join_Cons)
  finally show ?thesis
    by (simp add: kept_text_def py_strip_Cons_space newline_space)
next
  case False
  obtain h T where L: "py_split ''\<newline>'' t = h # T"
    using py_split_nonempty [of "CHR ''\<newline>''" t] by (cases "py_split ''\<newline>'' t") auto
  from False have s: "py_split ''\<newline>'' (c # t) = (c # h) # T"
    using py_split_Cons [of c "CHR ''\<newline>''" t] by (simp add: L)
  show ?thesis
  proof (cases "fence_line h")
    case True
    with assms show ?thesis by (simp add: kept_text_def s L fence_line_Cons)
  next
    case False
    with assms have "kept_text (c # t) = c # kept_text t"
      by (simp add: kept_text_def s L fence_line_Cons py_join_Cons)
    with assms show ?thesis by (simp add: py_strip_Cons_space)
  qed
qed

lemma kept_text_blank_left: "blank u \<Longrightarrow> py_strip (kept_text (u @ t)) = py_strip (kept_text t)"
  by (induction u) (simp_all add: blank_def kept_text_Cons)

lemma kept_text_snoc:
  assumes "py_isspace c"
  shows "py_strip (kept_text (t @ [c])) = py_strip (kept_text t)"
proof (cases "c = CHR ''\<newline>''")
  case True
  let ?F = "filter (\<lambda>l. \<not> fence_line l) (py_split ''\<newline>'' t)"
  have "kept_text (t @ [c]) = py_join ''\<newline>'' (?F @ [[]])"
    by (simp add: kept_text_def True py_split_nl_snoc fence_line_Nil)
  also have "\<dots> = (if ?F = [] then [] else py_join ''\<newline>'' ?F @ ''\<newline>'')"
    by (simp add: py_join_snoc)
  finally show ?thesis
    using py_strip_snoc_space [OF newline_space, of "py_join ''\<newline>'' ?F"]
    by (simp add: kept_text_def)
next
  case False
  let ?L = "py_split ''\<newline>'' t"
  let ?B = "filter (\<lambda>l. \<not> fence_line l) (butlast ?L)"
  have ne: "?L \<noteq> []" by (rule py_split_nonempty)
  from False have s: "py_split ''\<newline>'' (t @ [c]) = butlast ?L @ [last ?L @ [c]]"
    using py_split_snoc [of c "CHR ''\<newline>''" t] by simp
  have "filter (\<lambda>l. \<not> fence_line l) (butlast ?L @ [last ?L])
      = ?B @ (if fence_line (last ?L) then [] else [last ?L])" by simp
  then have f: "filter (\<lambda>l. \<not> fence_line l) ?L
      = ?B @ (if fence_line (last ?L) then [] else [last ?L])"
    by (simp only: append_butlast_last_id [OF ne])
  show ?thesis
  proof (cases "fence_line (last ?L)")
    case True
    with assms f show ?thesis by (simp add: kept_text_def s fence_line_snoc)
  next
    case False
    with assms f have "kept_text (t @ [c]) = kept_text t @ [c]"
      by (simp add: kept_text_def s fence_line_snoc py_join_snoc)
    with assms show ?thesis by (simp add: py_strip_snoc_space)
  qed
qed

lemma kept_text_blank_right: "blank u \<Longrightarrow> py_strip (kept_text (t @ u)) = py_strip (kept_text t)"
proof (induction u rule: rev_induct)
  case Nil
  then show ?case by simp
next
  case (snoc c u)
  then have "py_isspace c" and "blank u" by (simp_all add: blank_def)
  with snoc.IH kept_text_snoc [of c "t @ u"] show ?case by simp
qed

lemma wrapped_generic:
  assumes "blank lead" and "CHR ''\<newline>'' \<notin> set label" and "blank w" and "CHR ''\<newline>'' \<notin> set w"
    and "blank tail" and "\<not> py_in ''```'' csv"
    and "\<not> py_in ''```csv'' (generic_block lead label csv w tail)"
  shows "strip_csv_fences (generic_block lead label csv w tail) = Inr (py_strip csv)"
proof -
  let ?open = "''```'' @ label"
  let ?close = "w @ ''```''"
  let ?core = "?open @ CHR ''\<newline>'' # csv @ CHR ''\<newline>'' # ?close"
  let ?t = "generic_block lead label csv w tail"
  have t: "?t = lead @ ?core @ tail" by (simp add: generic_block_def)
  have "sublist ''```'' ?t" unfolding generic_block_def by (meson sublist_appendI sublist_order.order.refl)
  then have f: "py_in ''```'' ?t" by (simp add: py_in_iff_sublist)
  from assms(2) have o: "CHR ''\<newline>'' \<notin> set ?open" by simp
  from assms(4) have c: "CHR ''\<newline>'' \<notin> set ?close" by simp
  from o have lo: "py_split ''\<newline>'' ?open = [?open]" by (rule py_split_line)
  from c have lc: "py_split ''\<newline>'' ?close = [?close]" by (rule py_split_line)
  have "py_split ''\<newline>'' ?core
      = py_split ''\<newline>'' ?open @ py_split ''\<newline>'' csv @ py_split ''\<newline>'' ?close"
    by (simp only: py_split_char_app)
  then have lines: "py_split ''\<newline>'' ?core = ?open # py_split ''\<newline>'' csv @ [?close]"
    by (simp only: lo lc) simp
  have "py_strip ?open = ''```'' @ rev (dropWhile py_isspace (rev label))"
    using py_strip_around [of "''```''" "[]" label] by (simp add: py_isspace_def)
  then have fo: "fence_line ?open" by (simp add: fence_line_def)
  from assms(3) have "dropWhile py_isspace w = []" by (induction w) (simp_all add: blank_def)
  then have "py_strip ?close = ''```''"
    using py_strip_around [of "''```''" w "[]"] by (simp add: py_isspace_def)
  then have fc: "fence_line ?close" by (simp add: fence_line_def)
  have "filter (\<lambda>l. \<not> fence_line l) (py_split ''\<newline>'' csv) = py_split ''\<newline>'' csv"
    using no_fence_line [OF assms(6)] by (simp add: filter_id_conv)
  with lines fo fc have "kept_text ?core = csv"
    by (simp add: kept_text_def py_join_split)
  moreover have "py_strip (kept_text ?t) = py_strip (kept_text ?core)"
    unfolding t using kept_text_blank_left [OF assms(1), of "?core @ tail"]
      kept_text_blank_right [OF assms(5), of ?core] by simp
  ultimately have "py_strip (kept_text ?t) = py_strip csv" by simp
  with assms(7) f show ?thesis by (simp add: strip_csv_fences_def kept_text_def)
qed

section \<open>Properties of the percentage arithmetic\<close>

declare dec.simps [simp del]

lemma round_half_even_near: "\<bar>of_int (round_half_even y) - y\<bar> \<le> 1 / 2"
proof -
  have "of_int \<lfloor>y\<rfloor> \<le> y" "y < of_int \<lfloor>y\<rfloor> + 1" by linarith+
  then show ?thesis by (auto simp: round_half_even_def Let_def)
qed

lemma round_half_even_int: "round_half_even (of_int k) = k"
  by (simp add: round_half_even_def)

lemma bitlen_powi:
  assumes "0 < p"
  shows "(2::rat) powi (bitlen p - 1) \<le> of_int p" and "of_int p < (2::rat) powi (bitlen p)"
    and "0 < bitlen p"
proof -
  from bitlen_bounds [OF assms]
  have b1: "2 ^ nat (bitlen p - 1) \<le> p" and b2: "p < 2 ^ nat (bitlen p)" by simp_all
  show pos: "0 < bitlen p"
  proof (rule ccontr)
    assume "\<not> 0 < bitlen p"
    then have "nat (bitlen p) = 0" by simp
    with b2 assms show False by simp
  qed
  from b1 have "(of_int (2 ^ nat (bitlen p - 1)) :: rat) \<le> of_int p" by (simp only: of_int_le_iff)
  with pos show "(2::rat) powi (bitlen p - 1) \<le> of_int p" by (simp add: power_int_def)
  from b2 have "(of_int p :: rat) < of_int (2 ^ nat (bitlen p))" by (simp only: of_int_less_iff)
  with pos show "of_int p < (2::rat) powi (bitlen p)" by (simp add: power_int_def)
qed

lemma float_exponent_bounds:
  assumes "0 < x"
  shows "2 powi (float_exponent x) \<le> x" and "x < 2 powi (float_exponent x + 1)"
proof -
  obtain p q where pq: "quotient_of x = (p, q)" by (cases "quotient_of x")
  then have q: "0 < q" and x: "x = of_int p / of_int q"
    using quotient_of_denom_pos quotient_of_div by auto
  with assms have p: "0 < p" by (simp add: zero_less_divide_iff)
  define e where "e = bitlen p - bitlen q"
  have qr: "(0::rat) < of_int q" using q by simp
  have pw: "(0::rat) < 2 powi k" for k by simp
  have "x < 2 powi (bitlen p) / 2 powi (bitlen q - 1)"
  proof -
    have "x < 2 powi (bitlen p) / of_int q"
      unfolding x using bitlen_powi(2) [OF p] qr by (simp add: divide_strict_right_mono)
    also have "\<dots> \<le> 2 powi (bitlen p) / 2 powi (bitlen q - 1)"
      using bitlen_powi(1) [OF q] qr
      by (intro divide_left_mono) simp_all
    finally show ?thesis .
  qed
  also have "2 powi (bitlen p) / 2 powi (bitlen q - 1) = (2::rat) powi (e + 1)"
    by (simp add: e_def power_int_diff [symmetric] algebra_simps)
  finally have up: "x < 2 powi (e + 1)" .
  have "(2::rat) powi (e - 1) = 2 powi (bitlen p - 1) / 2 powi (bitlen q)"
    by (simp add: e_def power_int_diff [symmetric] algebra_simps)
  also have "\<dots> \<le> of_int p / 2 powi (bitlen q)"
    using bitlen_powi(1) [OF p] pw [of "bitlen q"] by (simp add: divide_right_mono)
  also have "\<dots> \<le> x"
    unfolding x using bitlen_powi(2) [OF q] qr p
    by (intro divide_left_mono) simp_all
  finally have lo: "2 powi (e - 1) \<le> x" .
  have fe: "float_exponent x = (if 2 powi e \<le> x then e else e - 1)"
    by (simp add: float_exponent_def pq e_def)
  show "2 powi (float_exponent x) \<le> x" using lo by (simp add: fe)
  show "x < 2 powi (float_exponent x + 1)" using up by (auto simp: fe)
qed

lemma powi_less_exp:
  assumes "(2::rat) powi a < 2 powi b"
  shows "a < b"
proof (rule ccontr)
  assume "\<not> a < b"
  then have "b \<le> a" by simp
  then have "(2::rat) powi b \<le> 2 powi a" by (rule power_int_increasing) simp
  with assms show False by simp
qed

lemma float_exponent_unique:
  assumes "0 < x" and "2 powi k \<le> x" and "x < 2 powi (k + 1)"
  shows "float_exponent x = k"
proof -
  let ?e = "float_exponent x"
  note b = float_exponent_bounds [OF assms(1)]
  have "(2::rat) powi k < 2 powi (?e + 1)" using assms(2) b(2) by (rule le_less_trans)
  then have "k < ?e + 1" by (rule powi_less_exp)
  moreover have "(2::rat) powi ?e < 2 powi (k + 1)" using b(1) assms(3) by (rule le_less_trans)
  then have "?e < k + 1" by (rule powi_less_exp)
  ultimately show ?thesis by simp
qed

lemma float_exponent_ge:
  assumes "0 < x" and "2 powi k \<le> x"
  shows "k \<le> float_exponent x"
proof -
  from assms(2) float_exponent_bounds(2) [OF assms(1)]
  have "(2::rat) powi k < 2 powi (float_exponent x + 1)" by (rule le_less_trans)
  then have "k < float_exponent x + 1" by (rule powi_less_exp)
  then show ?thesis by simp
qed

lemma float_exponent_less:
  assumes "0 < x" and "x < 2 powi k"
  shows "float_exponent x < k"
proof -
  from float_exponent_bounds(1) [OF assms(1)] assms(2)
  have "(2::rat) powi (float_exponent x) < 2 powi k" by (rule le_less_trans)
  then show ?thesis by (rule powi_less_exp)
qed

text \<open>In the normal range rounding moves a value by at most half a unit in the last place.\<close>

lemma round_double_error:
  assumes "2 powi (- 1022) \<le> x"
  shows "\<bar>round_double x - x\<bar> \<le> x * 2 powi (- 53)" and "0 < round_double x"
proof -
  have pos: "0 < x" using assms by (rule less_le_trans [rotated]) simp
  define e where "e = float_exponent x"
  define ulp :: rat where "ulp = 2 powi (e - 52)"
  define k where "k = round_half_even (x / ulp)"
  have e: "- 1022 \<le> e" unfolding e_def using pos assms by (rule float_exponent_ge)
  have up: "0 < ulp" by (simp add: ulp_def)
  have rd: "round_double x = of_int k * ulp"
    using pos e by (simp add: round_double_def Let_def e_def [symmetric] ulp_def k_def max_def)
  have "\<bar>of_int k - x / ulp\<bar> \<le> 1 / 2" unfolding k_def by (rule round_half_even_near)
  then have "\<bar>of_int k - x / ulp\<bar> * ulp \<le> 1 / 2 * ulp" using up by (simp add: mult_right_mono)
  moreover have "\<bar>of_int k - x / ulp\<bar> * ulp = \<bar>of_int k * ulp - x\<bar>"
  proof -
    have "\<bar>of_int k - x / ulp\<bar> * ulp = \<bar>(of_int k - x / ulp) * ulp\<bar>"
      using up by (simp add: abs_mult)
    also have "(of_int k - x / ulp) * ulp = of_int k * ulp - x" using up by (simp add: field_simps)
    finally show ?thesis .
  qed
  ultimately have half: "\<bar>round_double x - x\<bar> \<le> ulp / 2" by (simp add: rd)
  have "ulp / 2 = 2 powi e * 2 powi (- 53)"
    by (simp add: ulp_def power_int_diff power_int_minus field_simps)
  also have "\<dots> \<le> x * 2 powi (- 53)"
    using float_exponent_bounds(1) [OF pos] by (simp add: e_def mult_right_mono)
  finally have u: "ulp / 2 \<le> x * 2 powi (- 53)" .
  with half show "\<bar>round_double x - x\<bar> \<le> x * 2 powi (- 53)" by simp
  have "x * 2 powi (- 53) < x" using pos by (simp add: power_int_minus field_simps)
  with half u show "0 < round_double x" by linarith
qed

text \<open>Every natural number below \<open>2 ^ 53\<close> is a double.\<close>

lemma round_double_nat:
  assumes "n < 2 ^ 53"
  shows "round_double (of_nat n) = of_nat n"
proof (cases "n = 0")
  case True
  then show ?thesis by (simp add: round_double_def)
next
  case False
  define x :: rat where "x = of_nat n"
  define e where "e = float_exponent x"
  have pos: "0 < x" using False by (simp add: x_def)
  have "(2::rat) powi 0 \<le> x" using False by (simp add: x_def)
  with pos have e0: "0 \<le> e" unfolding e_def by (rule float_exponent_ge)
  have "x < 2 ^ 53" using assms unfolding x_def by (metis of_nat_less_iff of_nat_numeral of_nat_power)
  then have "x < 2 powi 53" by simp
  with pos have e53: "e < 53" unfolding e_def by (rule float_exponent_less)
  define j where "j = nat (52 - e)"
  have ulp: "(2::rat) powi (e - 52) = 1 / 2 ^ j"
    using e53 by (simp add: j_def power_int_def field_simps)
  have "x / (1 / 2 ^ j) = of_int (int n * 2 ^ j)" by (simp add: x_def)
  then have "round_half_even (x / (1 / 2 ^ j)) = int n * 2 ^ j"
    by (simp only: round_half_even_int)
  then have "round_double x = of_int (int n * 2 ^ j) * (1 / 2 ^ j)"
    using pos e0 by (simp add: round_double_def Let_def e_def [symmetric] ulp max_def)
  then show ?thesis by (simp add: x_def)
qed

lemma round_half_even_eqI:
  assumes "\<bar>of_int k - y\<bar> < 1 / 2"
  shows "round_half_even y = k"
proof -
  have "\<bar>of_int (round_half_even y) - y\<bar> \<le> 1 / 2" by (rule round_half_even_near)
  with assms have "\<bar>(of_int (round_half_even y) :: rat) - of_int k\<bar> < 1" by linarith
  then have "\<bar>(of_int (round_half_even y - k) :: rat)\<bar> < of_int 1" by simp
  then have "\<bar>round_half_even y - k\<bar> < 1" by (simp only: of_int_abs [symmetric] of_int_less_iff)
  then show ?thesis by simp
qed

lemma round_double_eqI:
  assumes "2 powi e \<le> x" and "x < 2 powi (e + 1)" and "- 1022 \<le> e"
    and "\<bar>of_int k - x / 2 powi (e - 52)\<bar> < 1 / 2"
  shows "round_double x = of_int k * 2 powi (e - 52)"
proof -
  have pos: "0 < x" using assms(1) by (rule less_le_trans [rotated]) simp
  from pos assms(1,2) have fe: "float_exponent x = e" by (rule float_exponent_unique)
  from assms(3) have mx: "max e (- 1022) = e" by simp
  from assms(4) have rh: "round_half_even (x / 2 powi (e - 52)) = k"
    by (rule round_half_even_eqI)
  from pos have "round_double x
      = of_int (round_half_even (x / 2 powi (max (float_exponent x) (- 1022) - 52)))
        * 2 powi (max (float_exponent x) (- 1022) - 52)"
    by (simp add: round_double_def Let_def)
  then show ?thesis unfolding fe mx rh .
qed

lemma to_float64_Finite: "\<bar>round_double x\<bar> \<le> 1024 \<Longrightarrow> to_float64 x = Finite (round_double x)"
proof -
  assume a: "\<bar>round_double x\<bar> \<le> 1024"
  have "(2::rat) powi 10 < 2 powi 1024" by (rule power_int_strict_increasing) simp_all
  then have "(1024::rat) < 2 powi 1024" by simp
  with a have "\<not> 2 powi 1024 \<le> \<bar>round_double x\<bar>" by linarith
  then show ?thesis by (simp add: to_float64_def Let_def)
qed

lemma to_float64_nat: "n < 2 ^ 53 \<Longrightarrow> to_float64 (of_nat n) = Finite (of_nat n)"
proof -
  assume a: "n < 2 ^ 53"
  then have r: "round_double (of_nat n) = of_nat n" by (rule round_double_nat)
  have "(of_nat n :: rat) < 2 ^ 53"
    using a by (metis of_nat_less_iff of_nat_numeral of_nat_power)
  then have "(of_nat n :: rat) < 2 powi 53" by simp
  also have "(2::rat) powi 53 < 2 powi 1024" by (rule power_int_strict_increasing) simp_all
  finally have "\<not> 2 powi 1024 \<le> \<bar>(of_nat n :: rat)\<bar>" by simp
  with r show ?thesis by (simp add: to_float64_def Let_def)
qed

lemma true_divide_nat:
  assumes "m < 2 ^ 53" and "n < 2 ^ 53"
  shows "true_divide (int m) (int n) =
     (if n = 0 then (if m = 0 then NaN else PosInf) else to_float64 (of_nat m / of_nat n))"
  using assms by (simp add: true_divide_def to_float64_nat)

lemma times_hundred: "times_int (Finite x) 100 = to_float64 (x * 100)"
proof -
  have "to_float64 (of_nat 100) = Finite (of_nat 100)" by (rule to_float64_nat) simp
  then show ?thesis by (simp add: times_int_def)
qed

lemma percentage_eq:
  assumes "m < 2 ^ 53" and "n < 2 ^ 53" and "0 < n"
    and "\<bar>round_double (of_nat m / of_nat n)\<bar> \<le> 1024"
    and "\<bar>round_double (round_double (of_nat m / of_nat n) * 100)\<bar> \<le> 1024"
  shows "percentage m n = Finite (round_double (round_double (of_nat m / of_nat n) * 100))"
  using assms by (simp add: percentage_def true_divide_nat to_float64_Finite times_hundred)

lemma format_1f_eqI:
  assumes "0 \<le> x" and "\<bar>of_nat t - 10 * x\<bar> < 1 / 2"
  shows "format_1f (Finite x) = dec (t div 10) @ ''.'' @ dec (t mod 10)"
proof -
  from assms(2) have "\<bar>of_int (int t) - 10 * x\<bar> < 1 / 2" by simp
  then have "round_half_even (10 * x) = int t" by (rule round_half_even_eqI)
  with assms(1) show ?thesis by (simp add: format_1f_def Let_def)
qed

lemma digit_eval:
  "digit 0 = CHR ''0''" "digit 1 = CHR ''1''" "digit 2 = CHR ''2''" "digit 3 = CHR ''3''"
  "digit 4 = CHR ''4''" "digit 5 = CHR ''5''" "digit 6 = CHR ''6''" "digit 7 = CHR ''7''"
  "digit 8 = CHR ''8''" "digit 9 = CHR ''9''" "digit (Suc 0) = CHR ''1''"
  by (code_simp, code_simp, code_simp, code_simp, code_simp, code_simp, code_simp, code_simp,
      code_simp, code_simp, code_simp)

lemma percentage_zero:
  assumes "0 < n" and "n < 2 ^ 53"
  shows "percentage 0 n = Finite 0"
proof -
  have z: "round_double 0 = 0" by (simp add: round_double_def)
  have "to_float64 0 = Finite 0" using to_float64_Finite [of 0] by (simp add: z)
  moreover have "true_divide (int 0) (int n) = to_float64 (of_nat 0 / of_nat n)"
    using assms true_divide_nat [of 0 n] by simp
  ultimately show ?thesis by (simp add: percentage_def times_hundred)
qed

lemma percentage_error:
  assumes "0 < m" and "m \<le> n" and "n < 10 ^ 12"
  shows "\<exists>p. percentage m n = Finite p \<and> 0 \<le> p
           \<and> \<bar>p - 100 * of_nat m / of_nat n\<bar> \<le> 300 * 2 powi (- 53)"
proof -
  define r :: rat where "r = of_nat m / of_nat n"
  define u :: rat where "u = 2 powi (- 53)"
  define q where "q = round_double r"
  define p where "p = round_double (q * 100)"
  have n0: "0 < n" using assms by simp
  have nb: "n < 2 ^ 53" using assms(3) by simp
  have mb: "m < 2 ^ 53" using assms(2,3) by simp
  have u: "0 < u" "u \<le> 1 / 1000" by (simp_all add: u_def)
  have nr: "(of_nat n :: rat) < 10 ^ 12"
    using assms(3) by (metis of_nat_less_iff of_nat_numeral of_nat_power)
  have r1: "r \<le> 1" using assms(2) n0 by (simp add: r_def)
  have "1 / 10 ^ 12 < 1 / (of_nat n :: rat)" using nr n0 by (simp add: frac_less2)
  also have "1 / (of_nat n :: rat) \<le> r" using assms(1) n0 by (simp add: r_def divide_right_mono)
  finally have rl: "1 / 10 ^ 12 < r" .
  have tiny: "(2::rat) powi (- 1022) \<le> 1 / 10 ^ 13"
  proof -
    have "(2::rat) powi (- 1022) \<le> 2 powi (- 50)" by (rule power_int_increasing) simp_all
    also have "\<dots> \<le> 1 / 10 ^ 13" by simp
    finally show ?thesis .
  qed
  have "2 powi (- 1022) \<le> r" using tiny rl by simp
  from round_double_error [OF this]
  have qe: "\<bar>q - r\<bar> \<le> r * u" and q0: "0 < q" by (simp_all add: q_def u_def)
  have "r * u \<le> 1 * u" using r1 u(1) by (intro mult_right_mono) simp_all
  with qe have qe1: "\<bar>q - r\<bar> \<le> u" by simp
  have "r * u \<le> r * (1 / 1000)" using u(2) rl by (intro mult_left_mono) simp_all
  with qe have "r - r / 1000 \<le> q" by linarith
  with rl have ql: "1 / 10 ^ 13 \<le> q * 100" by simp
  have qu: "q \<le> 2" using qe1 r1 u by linarith
  have "2 powi (- 1022) \<le> q * 100" using tiny ql by simp
  from round_double_error [OF this]
  have pe: "\<bar>p - q * 100\<bar> \<le> q * 100 * u" and p0: "0 < p" by (simp_all add: p_def u_def)
  have "q * 100 * u \<le> 2 * 100 * u" using qu u(1) by (intro mult_right_mono) simp_all
  with pe have pe1: "\<bar>p - q * 100\<bar> \<le> 200 * u" by simp
  from qe1 pe1 have tot: "\<bar>p - 100 * r\<bar> \<le> 300 * u" by linarith
  have "\<bar>q\<bar> \<le> 1024" using q0 qu by simp
  moreover have "\<bar>p\<bar> \<le> 1024" using p0 pe1 qu u by linarith
  ultimately have "percentage m n = Finite p"
    using percentage_eq [OF mb nb n0] by (simp add: q_def p_def r_def)
  with p0 tot show ?thesis by (auto simp: r_def u_def)
qed

text \<open>
  An integer number of tenths within a half of \<open>10 * p\<close>, where \<open>p\<close> is within
  \<open>300 * 2 powi (- 53)\<close> of \<open>100 * m / n\<close>, is within a half of \<open>1000 * m / n\<close>
  as long as \<open>n\<close> is below \<open>10 ^ 12\<close>: two multiples of \<open>1 / n\<close> that differ are at
  least \<open>1 / n\<close> apart.
\<close>

lemma tenths_nearest:
  assumes n: "0 < n" "n < 10 ^ 12"
    and t: "\<bar>of_nat t - 10 * (p::rat)\<bar> \<le> 1 / 2"
    and p: "\<bar>p - 100 * of_nat m / of_nat n\<bar> \<le> 300 * 2 powi (- 53)"
  shows "\<bar>of_nat t / 10 - 100 * of_nat m / (of_nat n :: rat)\<bar> \<le> 1 / 20"
proof (rule ccontr)
  assume c: "\<not> \<bar>of_nat t / 10 - 100 * of_nat m / (of_nat n :: rat)\<bar> \<le> 1 / 20"
  define N :: rat where "N = of_nat n"
  define d :: int where "d = int t * int n - 1000 * int m"
  have N0: "0 < N" using n(1) by (simp add: N_def)
  have NB: "N < 10 ^ 12"
    unfolding N_def using n(2) by (metis of_nat_less_iff of_nat_numeral of_nat_power)
  have dN: "of_int d = (of_nat t - 1000 * of_nat m / N) * N"
    using N0 by (simp add: d_def N_def field_simps)
  define A where "A = of_nat t - 1000 * of_nat m / N"
  define B where "B = of_nat t / 10 - 100 * of_nat m / N"
  have "B = A / 10" by (simp add: A_def B_def)
  then have "\<bar>B\<bar> = \<bar>A\<bar> / 10" by simp
  moreover from c have "1 / 20 < \<bar>B\<bar>" by (simp add: B_def N_def)
  ultimately have "1 / 2 < \<bar>A\<bar>" by linarith
  then have "1 / 2 < \<bar>of_nat t - 1000 * of_nat m / N\<bar>" by (simp only: A_def)
  then have "1 / 2 * N < \<bar>of_nat t - 1000 * of_nat m / N\<bar> * N"
    using N0 by (simp add: mult_strict_right_mono)
  also have "\<bar>of_nat t - 1000 * of_nat m / N\<bar> * N = \<bar>of_int d\<bar>"
    using N0 by (simp add: dN abs_mult)
  finally have "of_int (int n) < (of_int (2 * \<bar>d\<bar>) :: rat)" by (simp add: N_def)
  then have "int n < 2 * \<bar>d\<bar>" by (simp only: of_int_less_iff)
  then have "int n + 1 \<le> 2 * \<bar>d\<bar>" by simp
  then have "(of_int (int n + 1) :: rat) \<le> of_int (2 * \<bar>d\<bar>)" by (simp only: of_int_le_iff)
  then have lower: "N + 1 \<le> 2 * \<bar>of_int d\<bar>" by (simp add: N_def)
  have "\<bar>of_nat t - 1000 * of_nat m / N\<bar> \<le> 1 / 2 + 3000 * 2 powi (- 53)"
  proof -
    define X where "X = 100 * of_nat m / N"
    define u :: rat where "u = 2 powi (- 53)"
    have "1000 * of_nat m / N = 10 * X" by (simp add: X_def)
    moreover from p have "\<bar>p - X\<bar> \<le> 300 * u" by (simp only: X_def N_def u_def)
    ultimately have "\<bar>of_nat t - 1000 * of_nat m / N\<bar> \<le> 1 / 2 + 3000 * u"
      using t by linarith
    then show ?thesis by (simp only: u_def)
  qed
  then have "\<bar>of_nat t - 1000 * of_nat m / N\<bar> * N \<le> (1 / 2 + 3000 * 2 powi (- 53)) * N"
    using N0 by (intro mult_right_mono) simp_all
  then have "\<bar>of_int d\<bar> \<le> (1 / 2 + 3000 * 2 powi (- 53)) * N"
    using N0 by (simp add: dN abs_mult)
  with lower have "N + 1 \<le> N + 6000 * 2 powi (- 53) * N" by (simp add: algebra_simps)
  moreover have "6000 * 2 powi (- 53) * N < 6000 * 2 powi (- 53) * 10 ^ 12"
    using NB by (intro mult_strict_left_mono) simp_all
  moreover have "(6000::rat) * 2 powi (- 53) * 10 ^ 12 < 1" by simp
  ultimately show False by linarith
qed

lemma percentage_near:
  assumes "0 < n" and "n < 10 ^ 12" and "m \<le> n"
  shows "\<exists>t. format_1f (percentage m n) = dec (t div 10) @ ''.'' @ dec (t mod 10)
           \<and> \<bar>of_nat t / 10 - 100 * of_nat m / (of_nat n :: rat)\<bar> \<le> 1 / 20
           \<and> t \<le> 1000"
proof -
  have "\<exists>p. percentage m n = Finite p \<and> 0 \<le> p
           \<and> \<bar>p - 100 * of_nat m / of_nat n\<bar> \<le> 300 * 2 powi (- 53)"
  proof (cases "m = 0")
    case True
    have "n < 2 ^ 53" using assms(2) by simp
    with assms(1) have "percentage 0 n = Finite 0" by (rule percentage_zero)
    with True show ?thesis by simp
  next
    case False
    then have "0 < m" by simp
    from this assms(3,2) show ?thesis by (rule percentage_error)
  qed
  then obtain p where v: "percentage m n = Finite p" and p0: "0 \<le> p"
    and pe: "\<bar>p - 100 * of_nat m / of_nat n\<bar> \<le> 300 * 2 powi (- 53)" by blast
  define t where "t = nat (round_half_even (10 * p))"
  have "\<bar>of_int (round_half_even (10 * p)) - 10 * p\<bar> \<le> 1 / 2" by (rule round_half_even_near)
  moreover from this p0 have "0 \<le> round_half_even (10 * p)" by linarith
  ultimately have tn: "\<bar>of_nat t - 10 * p\<bar> \<le> 1 / 2" by (simp add: t_def)
  from assms(1,2) tn pe
  have near: "\<bar>of_nat t / 10 - 100 * of_nat m / (of_nat n :: rat)\<bar> \<le> 1 / 20"
    by (rule tenths_nearest)
  have "(of_nat m :: rat) / of_nat n \<le> 1" using assms(1,3) by simp
  then have "100 * of_nat m / (of_nat n :: rat) \<le> 100" by simp
  with near have "(of_nat t :: rat) \<le> 1000 + 1 / 2" by linarith
  then have "(of_nat t :: rat) < of_nat 1001" by simp
  then have "t < 1001" by (simp only: of_nat_less_iff)
  then have tb: "t \<le> 1000" by simp
  have "format_1f (percentage m n) = dec (t div 10) @ ''.'' @ dec (t mod 10)"
    using p0 by (simp add: v format_1f_def Let_def t_def)
  with near tb show ?thesis by blast
qed

text \<open>The percentages of the examples, from the exponent and the mantissa of each rounding.\<close>

lemma pct_two_ninths: "percentage 2 9 = Finite (3127499741229511 / 140737488355328) \<and> format_1f (percentage 2 9) = ''22.2''"
proof -
  have "round_double (2 / 9) = of_int 8006399337547548 * 2 powi ((- 3) - 52)"
    by (rule round_double_eqI) simp_all
  then have q: "round_double (2 / 9) = 2001599834386887 / 9007199254740992" by simp
  have "round_double (50039995859672175 / 2251799813685248) = of_int 6254999482459022 * 2 powi (4 - 52)"
    by (rule round_double_eqI) simp_all
  then have p: "round_double (50039995859672175 / 2251799813685248) = 3127499741229511 / 140737488355328" by simp
  have v: "percentage 2 9 = Finite (3127499741229511 / 140737488355328)"
    using percentage_eq [of 2 9] by (simp add: q p)
  have "format_1f (Finite (3127499741229511 / 140737488355328)) = dec (222 div 10) @ ''.'' @ dec (222 mod 10)"
    by (rule format_1f_eqI) simp_all
  then have "format_1f (Finite (3127499741229511 / 140737488355328)) = ''22.2''" by (simp add: dec.simps digit_eval)
  with v show ?thesis by simp
qed

lemma pct_tie_up: "percentage 1 2000 = Finite (3602879701896397 / 72057594037927936) \<and> format_1f (percentage 1 2000) = ''0.1''"
proof -
  have "round_double (1 / 2000) = of_int 4611686018427388 * 2 powi ((- 11) - 52)"
    by (rule round_double_eqI) simp_all
  then have q: "round_double (1 / 2000) = 1152921504606847 / 2305843009213693952" by simp
  have "round_double (28823037615171175 / 576460752303423488) = of_int 7205759403792794 * 2 powi ((- 5) - 52)"
    by (rule round_double_eqI) simp_all
  then have p: "round_double (28823037615171175 / 576460752303423488) = 3602879701896397 / 72057594037927936" by simp
  have v: "percentage 1 2000 = Finite (3602879701896397 / 72057594037927936)"
    using percentage_eq [of 1 2000] by (simp add: q p)
  have "format_1f (Finite (3602879701896397 / 72057594037927936)) = dec (1 div 10) @ ''.'' @ dec (1 mod 10)"
    by (rule format_1f_eqI) simp_all
  then have "format_1f (Finite (3602879701896397 / 72057594037927936)) = ''0.1''" by (simp add: dec.simps digit_eval)
  with v show ?thesis by simp
qed

lemma pct_tie_down: "percentage 3 2000 = Finite (5404319552844595 / 36028797018963968) \<and> format_1f (percentage 3 2000) = ''0.1''"
proof -
  have "round_double (3 / 2000) = of_int 6917529027641082 * 2 powi ((- 10) - 52)"
    by (rule round_double_eqI) simp_all
  then have q: "round_double (3 / 2000) = 3458764513820541 / 2305843009213693952" by simp
  have "round_double (86469112845513525 / 576460752303423488) = of_int 5404319552844595 * 2 powi ((- 3) - 52)"
    by (rule round_double_eqI) simp_all
  then have p: "round_double (86469112845513525 / 576460752303423488) = 5404319552844595 / 36028797018963968" by simp
  have v: "percentage 3 2000 = Finite (5404319552844595 / 36028797018963968)"
    using percentage_eq [of 3 2000] by (simp add: q p)
  have "format_1f (Finite (5404319552844595 / 36028797018963968)) = dec (1 div 10) @ ''.'' @ dec (1 mod 10)"
    by (rule format_1f_eqI) simp_all
  then have "format_1f (Finite (5404319552844595 / 36028797018963968)) = ''0.1''" by (simp add: dec.simps digit_eval)
  with v show ?thesis by simp
qed

lemma pct_large: "percentage 4218071056690 5481573822859 = Finite (5414874864471245 / 70368744177664) \<and> format_1f (percentage 4218071056690 5481573822859) = ''77.0''"
proof -
  have "round_double (4218071056690 / 5481573822859) = of_int 6931039826523193 * 2 powi ((- 1) - 52)"
    by (rule round_double_eqI) simp_all
  then have q: "round_double (4218071056690 / 5481573822859) = 6931039826523193 / 9007199254740992" by simp
  have "round_double (173275995663079825 / 2251799813685248) = of_int 5414874864471245 * 2 powi (6 - 52)"
    by (rule round_double_eqI) simp_all
  then have p: "round_double (173275995663079825 / 2251799813685248) = 5414874864471245 / 70368744177664" by simp
  have v: "percentage 4218071056690 5481573822859 = Finite (5414874864471245 / 70368744177664)"
    using percentage_eq [of 4218071056690 5481573822859] by (simp add: q p)
  have "format_1f (Finite (5414874864471245 / 70368744177664)) = dec (770 div 10) @ ''.'' @ dec (770 mod 10)"
    by (rule format_1f_eqI) simp_all
  then have "format_1f (Finite (5414874864471245 / 70368744177664)) = ''77.0''" by (simp add: dec.simps digit_eval)
  with v show ?thesis by simp
qed

lemma pct_nan: "percentage 0 0 = NaN \<and> format_1f (percentage 0 0) = ''nan''"
  using true_divide_nat [of 0 0] by (simp add: percentage_def times_int_def format_1f_def)

text \<open>\<open>dec\<close> writes the decimal numeral: reading the digits back gives the number.\<close>

lemma of_char_digit: "d < 10 \<Longrightarrow> (of_char (digit d) :: nat) = 48 + d"
  by (simp add: digit_def)

lemma dec_value: "foldl (\<lambda>a c. 10 * a + (of_char c - 48)) 0 (dec n) = n"
proof (induction n rule: dec.induct)
  case (1 n)
  show ?case
  proof (cases "n < 10")
    case True
    then show ?thesis by (simp add: dec.simps [of n] of_char_digit)
  next
    case False
    with 1 have "foldl (\<lambda>a c. 10 * a + (of_char c - 48)) 0 (dec (n div 10)) = n div 10" by simp
    with False show ?thesis by (simp add: dec.simps [of n] of_char_digit)
  qed
qed

section \<open>Properties of the null counts\<close>

lemma sum_list_bound: "(\<And>x. x \<in> set xs \<Longrightarrow> x \<le> k) \<Longrightarrow> sum_list xs \<le> length xs * (k::nat)"
  by (induction xs) (simp_all add: add_mono)

lemma null_counts: 
  "map snd (isnull_sum df)
     = map (\<lambda>j. length (filter (\<lambda>r. cell r j = None) (rows df))) [0..<length (columns df)]"
proof -
  have "map snd (isnull_sum df)
      = map (\<lambda>j. length (filter (\<lambda>r. cell r j = None) (rows df)))
          (map fst (enumerate 0 (columns df)))"
    by (simp add: isnull_sum_def case_prod_unfold comp_def del: map_fst_enumerate)
  then show ?thesis by simp
qed

lemma missing_total_le: "missing_total df \<le> length (rows df) * length (columns df)"
proof -
  have "sum_list (map snd (isnull_sum df)) \<le> length (map snd (isnull_sum df)) * length (rows df)"
    by (rule sum_list_bound) (auto simp: null_counts)
  then show ?thesis by (simp add: missing_total_def null_counts mult.commute)
qed

lemma count_if: "sum_list (map (\<lambda>x. if P x then 1 else 0) xs) = length (filter P xs)"
  by (induction xs) simp_all

lemma row_nulls:
  "sum_list (map (\<lambda>j. if cell r j = None then 1 else 0) [0..<length r])
     = length (filter (\<lambda>c. c = None) r)"
proof -
  have "map (\<lambda>j. if cell r j = None then 1 else (0::nat)) [0..<length r]
      = map (\<lambda>c. if c = None then 1 else 0) (map (\<lambda>j. r ! j) [0..<length r])"
    by (simp add: cell_def)
  then show ?thesis by (simp only: map_nth count_if)
qed

lemma column_sums:
  assumes "\<forall>r\<in>set rs. length r = k"
  shows "sum_list (map (\<lambda>j. length (filter (\<lambda>r. cell r j = None) rs)) [0..<k])
     = length (filter (\<lambda>c. c = None) (concat rs))"
  using assms
proof (induction rs)
  case Nil
  then show ?case by simp
next
  case (Cons r rs)
  then have k: "length r = k" and rest: "\<forall>r\<in>set rs. length r = k" by simp_all
  have "map (\<lambda>j. length (filter (\<lambda>r. cell r j = None) (r # rs))) [0..<k]
      = map (\<lambda>j. (if cell r j = None then 1 else 0)
                    + length (filter (\<lambda>r. cell r j = None) rs)) [0..<k]"
    by simp
  then have "sum_list (map (\<lambda>j. length (filter (\<lambda>r. cell r j = None) (r # rs))) [0..<k])
      = sum_list (map (\<lambda>j. if cell r j = None then 1 else 0) [0..<k])
        + sum_list (map (\<lambda>j. length (filter (\<lambda>r. cell r j = None) rs)) [0..<k])"
    by (simp only: sum_list_addf)
  with Cons.IH [OF rest] row_nulls [of r] k show ?case by simp
qed

lemma missing_total_cells:
  assumes "\<forall>r\<in>set (rows df). length r = length (columns df)"
  shows "missing_total df = length (filter (\<lambda>c. c = None) (concat (rows df)))"
  using column_sums [OF assms] by (simp add: missing_total_def null_counts)

lemma one_column_missing:
  "missing_total \<lparr>columns = [c], rows = replicate m [None] @ replicate k [Some v]\<rparr> = m"
  by (simp add: missing_total_def isnull_sum_def cell_def filter_replicate)

section \<open>Properties of the page\<close>







section \<open>The sample table\<close>






section \<open>The claims\<close>

text \<open>Unfolding rules for evaluating the string functions and the samples on literals.\<close>

lemmas string_eval =
  py_in_def rest_after_def fenced_body_def marker_overlaps_def json_candidate_def
  first_piece_after_def py_index_def py_strip_def py_isspace_def py_split.simps
  text_before_def

lemmas sample_eval =
  sample_lib_def sample_loads_def sample_read_csv_def sample_df_def sample_analysis_def
  sample_session_def

subsection \<open>C1\<close>

text \<open>
  C1 (the code departs from the claim). A session holds the text and the table of an
  earlier cleaning; the next reply does not parse. The handler reports the error and
  leaves the analysis and the stored table as they were, but it has already stored the
  new text: the download offered next to the old table is the unparsable reply.
\<close>

theorem parse_failure_overwrites_cleaned_data:
  "clean_clicked (sample_lib [] ''a,b\<newline>1,2\<newline>3,4,5'') (Some (Groq ''k'')) sample_df
       sample_session sample_analysis
     = \<lparr>state = sample_session\<lparr>cleaned_data := Some ''a,b\<newline>1,2\<newline>3,4,5''\<rparr>,
        shown = [Notice Err (''Error parsing cleaned data: '' @
                  ''Error tokenizing data. C error: Expected 2 fields in line 3, saw 3'')],
        sent = [cleaning_request ''duplicate rows'' (to_csv_plain sample_df)],
        raised = None\<rparr>
   \<and> cleaned_data sample_session = Some ''a,b\<newline>1,2''
   \<and> cleaned_df (sample_session\<lparr>cleaned_data := Some ''a,b\<newline>1,2\<newline>3,4,5''\<rparr>)
       = cleaned_df sample_session
   \<and> analysis (sample_session\<lparr>cleaned_data := Some ''a,b\<newline>1,2\<newline>3,4,5''\<rparr>)
       = analysis sample_session
   \<and> last (shown (analysis_tab (sample_lib [] ''a,b\<newline>1,2\<newline>3,4,5'') (Some (Groq ''k''))
        sample_df ClickClean sample_session)) = Download ''a,b\<newline>1,2\<newline>3,4,5''"
  by (simp add: clean_clicked_def clean_data_def join_issues_def cleaning_request_def
      analysis_tab_def display_analysis_def numbered_def cleaned_section_def
      and_then_def emit_def sample_eval string_eval strip_csv_fences_def)

subsection \<open>C2\<close>

text \<open>
  C2 (the code departs from the claim). The reply \<open>{"severity": "high"}\<close> parses into a
  non-empty object and is stored; the display then reads \<open>analysis['summary']\<close> outside
  any \<open>try\<close> and the run ends with KeyError, before anything of the analysis is shown
  and before the sidebar.
\<close>

theorem display_missing_field_raises:
  "display_analysis (JObj [(''severity'', JStr ''high'')]) = ([], Some (KeyError ''summary''))
   \<and> analysis_tab (sample_lib ''{\"severity\": \"high\"}'' []) (Some (Groq ''k'')) sample_df
        ClickAnalyze \<lparr>analysis = None, cleaned_data = None, cleaned_df = None\<rparr>
       = \<lparr>state = \<lparr>analysis = Some (JObj [(''severity'', JStr ''high'')]),
                    cleaned_data = None, cleaned_df = None\<rparr>,
          shown = [], sent = [analysis_request (to_csv_plain sample_df)],
          raised = Some (KeyError ''summary'')\<rparr>
   \<and> display_analysis
        (JObj [(''severity'', JStr ''high''), (''summary'', JStr ''poor''), (''issues'', JArr [])])
       = ([Quality Red (JStr ''poor''), Markdown ''### Issues Found'',
           Markdown ''### Recommendations''],
          Some (KeyError ''recommendations''))"
  by (simp add: display_analysis_def numbered_def analysis_tab_def analyze_clicked_def
      analyze_data_def parse_reply_def analysis_request_def head_def sample_eval string_eval)

subsection \<open>C3\<close>

text \<open>
  C3 (amended). The reply parser tries its steps in a fixed order. With a \<open>```json\<close>
  marker the text between the first marker and the next fence is chosen, unless a second
  marker starts one or two characters into that closing fence, and everything after the
  marker when no fence follows; otherwise, with any fence, the text between the first
  fence and the next, or everything after it; otherwise the whole text. The choice never
  raises, it is stripped, and strict parsing of it decides first: its value is returned,
  and the brace fallback is tried only after a JSONDecodeError.
\<close>

theorem analysis_parse_order:
  "(py_in ''```json'' t \<and> fenced_body ''```json'' t = Some b \<and> \<not> marker_overlaps ''```json'' t
      \<longrightarrow> json_candidate t = Inr (py_strip b))
   \<and> (rest_after ''```json'' t = Some r \<and> fenced_body ''```json'' t = None
      \<longrightarrow> json_candidate t = Inr (py_strip r))
   \<and> (\<not> py_in ''```json'' t \<and> py_in ''```'' t \<and> fenced_body ''```'' t = Some b
      \<longrightarrow> json_candidate t = Inr (py_strip b))
   \<and> (\<not> py_in ''```json'' t \<and> rest_after ''```'' t = Some r \<and> fenced_body ''```'' t = None
      \<longrightarrow> json_candidate t = Inr (py_strip r))
   \<and> (\<not> py_in ''```'' t \<longrightarrow> json_candidate t = Inr (py_strip t))
   \<and> (\<exists>c. json_candidate t = Inr c)
   \<and> (json_candidate t = Inr c \<and> loads c = Inr a \<longrightarrow> parse_reply loads t = Returned a)
   \<and> (json_candidate t = Inr c \<and> loads c = Inl e \<and> \<not> is_JSONDecodeError e
      \<longrightarrow> parse_reply loads t = Raised e)"
proof (intro conjI impI)
  assume "py_in ''```json'' t \<and> fenced_body ''```json'' t = Some b \<and> \<not> marker_overlaps ''```json'' t"
  then show "json_candidate t = Inr (py_strip b)" by (simp add: json_candidate_labelled)
next
  assume a: "rest_after ''```json'' t = Some r \<and> fenced_body ''```json'' t = None"
  then have "py_in ''```json'' t" by (auto simp: rest_after_def py_in_def)
  moreover from a have "first_piece_after ''```json'' t = Inr r"
    by (intro candidate_unclosed) simp_all
  ultimately show "json_candidate t = Inr (py_strip r)" by (simp add: json_candidate_def)
next
  assume "\<not> py_in ''```json'' t \<and> py_in ''```'' t \<and> fenced_body ''```'' t = Some b"
  then show "json_candidate t = Inr (py_strip b)" by (simp add: json_candidate_generic)
next
  assume a: "\<not> py_in ''```json'' t \<and> rest_after ''```'' t = Some r \<and> fenced_body ''```'' t = None"
  then have "py_in ''```'' t" by (auto simp: rest_after_def py_in_def)
  moreover from a have "first_piece_after ''```'' t = Inr r"
    by (intro candidate_unclosed) simp_all
  ultimately show "json_candidate t = Inr (py_strip r)" using a by (simp add: json_candidate_def)
next
  assume a: "\<not> py_in ''```'' t"
  then have "\<not> py_in ''```json'' t" using no_json_marker by (auto simp: py_in_def)
  with a show "json_candidate t = Inr (py_strip t)" by (simp add: json_candidate_def)
next
  show "\<exists>c. json_candidate t = Inr c" by (rule json_candidate_total)
next
  assume "json_candidate t = Inr c \<and> loads c = Inr a"
  then show "parse_reply loads t = Returned a" by (simp add: parse_reply_def)
next
  assume "json_candidate t = Inr c \<and> loads c = Inl e \<and> \<not> is_JSONDecodeError e"
  then show "parse_reply loads t = Raised e" by (simp add: parse_reply_def)
qed

theorem analysis_parse_order_witness:
  "json_candidate ''Here: ```json {\"a\": 1} ``` and ```json {} ```'' = Inr ''{\"a\": 1}''
   \<and> json_candidate ''```json {\"a\": 1}'' = Inr ''{\"a\": 1}''
   \<and> json_candidate ''``` {\"a\": 1} ``` end'' = Inr ''{\"a\": 1}''
   \<and> json_candidate ''x ``` {\"a\": 1}'' = Inr ''{\"a\": 1}''
   \<and> json_candidate '' {\"a\": 1} '' = Inr ''{\"a\": 1}''
   \<and> parse_reply (\<lambda>s. Inr (JStr s)) ''```json {\"a\": 1} ```'' = Returned (JStr ''{\"a\": 1}'')
   \<and> parse_reply (\<lambda>s. Inl (OtherError ''recursion'')) ''{{}}'' = Raised (OtherError ''recursion'')"
proof -
  let ?t1 = "''Here: ```json {\"a\": 1} ``` and ```json {} ```''"
  let ?t2 = "''```json {\"a\": 1}''"
  let ?t3 = "''``` {\"a\": 1} ``` end''"
  let ?t4 = "''x ``` {\"a\": 1}''"
  let ?t5 = "'' {\"a\": 1} ''"
  let ?t6 = "''```json {\"a\": 1} ```''"
  have h1: "py_in ''```json'' ?t1 \<and> fenced_body ''```json'' ?t1 = Some '' {\"a\": 1} ''
      \<and> \<not> marker_overlaps ''```json'' ?t1"
    by (simp add: py_in_def rest_after_def fenced_body_def marker_overlaps_def)
  have h2: "rest_after ''```json'' ?t2 = Some '' {\"a\": 1}'' \<and> fenced_body ''```json'' ?t2 = None"
    by (simp add: rest_after_def fenced_body_def)
  have h3: "\<not> py_in ''```json'' ?t3 \<and> py_in ''```'' ?t3 \<and> fenced_body ''```'' ?t3 = Some '' {\"a\": 1} ''"
    by (simp add: py_in_def rest_after_def fenced_body_def)
  have h4: "\<not> py_in ''```json'' ?t4 \<and> rest_after ''```'' ?t4 = Some '' {\"a\": 1}''
      \<and> fenced_body ''```'' ?t4 = None"
    by (simp add: py_in_def rest_after_def fenced_body_def)
  have h5: "\<not> py_in ''```'' ?t5" by (simp add: py_in_def)
  have s: "py_strip '' {\"a\": 1} '' = ''{\"a\": 1}''" "py_strip '' {\"a\": 1}'' = ''{\"a\": 1}''"
    "py_strip ''{{}}'' = ''{{}}''"
    by (simp_all add: py_strip_def py_isspace_def)
  note o = analysis_parse_order
  from o [of ?t1 "'' {\"a\": 1} ''"] h1 s have c1: "json_candidate ?t1 = Inr ''{\"a\": 1}''" by simp
  from o [of ?t2 _ "'' {\"a\": 1}''"] h2 s have c2: "json_candidate ?t2 = Inr ''{\"a\": 1}''" by simp
  from o [of ?t3 "'' {\"a\": 1} ''"] h3 s have c3: "json_candidate ?t3 = Inr ''{\"a\": 1}''" by simp
  from o [of ?t4 _ "'' {\"a\": 1}''"] h4 s have c4: "json_candidate ?t4 = Inr ''{\"a\": 1}''" by simp
  from o [of ?t5] h5 s have c5: "json_candidate ?t5 = Inr ''{\"a\": 1}''" by simp
  have h6: "json_candidate ?t6 = Inr ''{\"a\": 1}''"
    by (simp add: string_eval)
  from o [of ?t6 _ _ "''{\"a\": 1}''" "\<lambda>s. Inr (JStr s)" "JStr ''{\"a\": 1}''"] h6
  have c6: "parse_reply (\<lambda>s. Inr (JStr s)) ?t6 = Returned (JStr ''{\"a\": 1}'')" by simp
  have h7: "json_candidate ''{{}}'' = Inr ''{{}}''" by (simp add: string_eval)
  from o [of "''{{}}''" _ _ "''{{}}''" "\<lambda>s. Inl (OtherError ''recursion'')" _ "OtherError ''recursion''"] h7
  have c7: "parse_reply (\<lambda>s. Inl (OtherError ''recursion'')) ''{{}}'' = Raised (OtherError ''recursion'')"
    by simp
  from c1 c2 c3 c4 c5 c6 c7 show ?thesis by (intro conjI)
qed

theorem analysis_fence_pair_counterexample:
  "py_in ''```json'' ''```jsonA````json''
   \<and> fenced_body ''```json'' ''```jsonA````json'' = Some ''A''
   \<and> py_strip ''A'' = ''A''
   \<and> json_candidate ''```jsonA````json'' = Inr ''A`''
   \<and> json_candidate ''```jsonA````json'' \<noteq> Inr (py_strip ''A'')"
  by (simp add: string_eval)

subsection \<open>C4\<close>

text \<open>
  C4 (amended). For an unfenced reply made of text without an opening brace, one object
  text from its opening to its closing brace that the decoder accepts, and text without a
  closing brace, \<open>analyze_data\<close> returns the decoded object and shows nothing, provided
  the stripped reply is that object text itself or is rejected by the strict parse; the
  object text is the slice from the first opening to the last closing brace. For a reply
  without a brace pair whose stripped candidate the strict parse rejects,
  \<open>analyze_data\<close> shows the parse error and returns \<open>None\<close>, with one request sent.
\<close>

theorem analysis_brace_fallback:
  "(chat L c (analysis_request (to_csv L df)) = Inr (Some t)
      \<and> \<not> py_in ''```'' t \<and> t = pre @ obj @ post
      \<and> CHR ''{'' \<notin> set pre \<and> CHR ''}'' \<notin> set post \<and> obj = CHR ''{'' # mid @ [CHR ''}'']
      \<and> json_loads L obj = Inr a
      \<and> (py_strip t = obj \<or> (\<exists>m. json_loads L (py_strip t) = Inl (JSONDecodeError m)))
    \<longrightarrow> analyze_data L (Some c) df = (a, [], [analysis_request (to_csv L df)])
        \<and> py_slice (py_strip t) (find_result (py_find ''{'' (py_strip t)))
              (find_result (py_rfind ''}'' (py_strip t)) + 1) = obj)
   \<and> (chat L c (analysis_request (to_csv L df)) = Inr (Some t)
      \<and> \<not> has_brace_pair t \<and> json_candidate t = Inr s
      \<and> json_loads L s = Inl (JSONDecodeError m)
    \<longrightarrow> analyze_data L (Some c) df =
          (JNull, [Notice Err ''Could not parse AI response. Please try again.''],
           [analysis_request (to_csv L df)]))"
proof (intro conjI impI)
  assume a: "chat L c (analysis_request (to_csv L df)) = Inr (Some t)
      \<and> \<not> py_in ''```'' t \<and> t = pre @ obj @ post
      \<and> CHR ''{'' \<notin> set pre \<and> CHR ''}'' \<notin> set post \<and> obj = CHR ''{'' # mid @ [CHR ''}'']
      \<and> json_loads L obj = Inr a
      \<and> (py_strip t = obj \<or> (\<exists>m. json_loads L (py_strip t) = Inl (JSONDecodeError m)))"
  then have h: "chat L c (analysis_request (to_csv L df)) = Inr (Some t)"
    "\<not> py_in ''```'' t" "t = pre @ obj @ post" "CHR ''{'' \<notin> set pre" "CHR ''}'' \<notin> set post"
    "obj = CHR ''{'' # mid @ [CHR ''}'']" "json_loads L obj = Inr a"
    "py_strip t = obj \<or> (\<exists>m. json_loads L (py_strip t) = Inl (JSONDecodeError m))"
    by blast+
  from parse_reply_embedded(1) [where loads = "json_loads L", OF h(2-8)]
  have "parse_reply (json_loads L) t = Returned a" .
  with h(1) show "analyze_data L (Some c) df = (a, [], [analysis_request (to_csv L df)])"
    by (simp add: analyze_data_parsed)
  from parse_reply_embedded(2) [where loads = "json_loads L", OF h(2-8)]
  show "py_slice (py_strip t) (find_result (py_find ''{'' (py_strip t)))
              (find_result (py_rfind ''}'' (py_strip t)) + 1) = obj" .
next
  assume a: "chat L c (analysis_request (to_csv L df)) = Inr (Some t)
      \<and> \<not> has_brace_pair t \<and> json_candidate t = Inr s
      \<and> json_loads L s = Inl (JSONDecodeError m)"
  then have h: "chat L c (analysis_request (to_csv L df)) = Inr (Some t)"
    "\<not> has_brace_pair t" "json_candidate t = Inr s" "json_loads L s = Inl (JSONDecodeError m)"
    by blast+
  from parse_reply_no_braces [where loads = "json_loads L", OF h(2-4)]
  have "parse_reply (json_loads L) t = NoJson" .
  with h(1) show "analyze_data L (Some c) df =
          (JNull, [Notice Err ''Could not parse AI response. Please try again.''],
           [analysis_request (to_csv L df)])"
    by (simp add: analyze_data_parsed)
qed

theorem analysis_brace_fallback_witness:
  "analyze_data (sample_lib ''Here it is: {\"a\": 1} (done)'' []) (Some (Groq ''k'')) sample_df
     = (JObj [(''a'', JInt 1)], [], [analysis_request (to_csv_plain sample_df)])
   \<and> py_slice ''Here it is: {\"a\": 1} (done)'' 12 20 = ''{\"a\": 1}''
   \<and> analyze_data (sample_lib ''Sorry, I cannot help.'' []) (Some (Groq ''k'')) sample_df
     = (JNull, [Notice Err ''Could not parse AI response. Please try again.''],
        [analysis_request (to_csv_plain sample_df)])"
proof -
  let ?t = "''Here it is: {\"a\": 1} (done)''"
  let ?u = "''Sorry, I cannot help.''"
  let ?L = "sample_lib ?t []" and ?M = "sample_lib ?u []"
  have st: "py_strip ?t = ?t" "py_strip ?u = ?u" by (simp_all add: py_strip_def py_isspace_def)
  have fr: "find_result (py_find ''{'' ?t) = 12" "find_result (py_rfind ''}'' ?t) + 1 = 20"
    by (simp_all add: find_result_def)
  have h1: "chat ?L (Groq ''k'') (analysis_request (to_csv ?L sample_df)) = Inr (Some ?t)
      \<and> \<not> py_in ''```'' ?t \<and> ?t = ''Here it is: '' @ ''{\"a\": 1}'' @ '' (done)''
      \<and> CHR ''{'' \<notin> set ''Here it is: '' \<and> CHR ''}'' \<notin> set '' (done)''
      \<and> ''{\"a\": 1}'' = CHR ''{'' # ''\"a\": 1'' @ [CHR ''}'']
      \<and> json_loads ?L ''{\"a\": 1}'' = Inr (JObj [(''a'', JInt 1)])
      \<and> (py_strip ?t = ''{\"a\": 1}''
          \<or> (\<exists>m. json_loads ?L (py_strip ?t) = Inl (JSONDecodeError m)))"
    unfolding st by (simp add: sample_eval analysis_request_def py_in_def)
  have h2: "chat ?M (Groq ''k'') (analysis_request (to_csv ?M sample_df)) = Inr (Some ?u)
      \<and> \<not> has_brace_pair ?u \<and> json_candidate ?u = Inr ?u
      \<and> json_loads ?M ?u = Inl (JSONDecodeError ''Expecting value'')"
    by (simp add: sample_eval analysis_request_def has_brace_pair_def string_eval)
  have t: "to_csv ?L = to_csv_plain" "to_csv ?M = to_csv_plain" by (simp_all add: sample_lib_def)
  note o1 = analysis_brace_fallback [where L = ?L and c = "Groq ''k''" and df = sample_df
      and t = ?t and pre = "''Here it is: ''" and obj = "''{\"a\": 1}''" and post = "'' (done)''"
      and mid = "''\"a\": 1''" and a = "JObj [(''a'', JInt 1)]", THEN conjunct1, THEN mp, OF h1]
  note o2 = analysis_brace_fallback [where L = ?M and c = "Groq ''k''" and df = sample_df
      and t = ?u and s = ?u and m = "''Expecting value''", THEN conjunct2, THEN mp, OF h2]
  from o1 o2 show ?thesis unfolding st fr t by simp
qed

theorem analysis_no_brace_counterexample:
  "\<not> has_brace_pair ''42''
   \<and> analyze_data (sample_lib ''42'' []) (Some (Groq ''k'')) sample_df
       = (JInt 42, [], [analysis_request (to_csv_plain sample_df)])
   \<and> \<not> py_in ''```'' ''[{\"a\": 1}]''
   \<and> sample_loads ''{\"a\": 1}'' = Inr (JObj [(''a'', JInt 1)])
   \<and> analyze_data (sample_lib ''[{\"a\": 1}]'' []) (Some (Groq ''k'')) sample_df
       = (JArr [JObj [(''a'', JInt 1)]], [], [analysis_request (to_csv_plain sample_df)])"
  by (simp add: has_brace_pair_def analyze_data_def sample_eval analysis_request_def parse_reply_def
      string_eval)

subsection \<open>C5\<close>

text \<open>
  C5 (amended). A cleaning response consists of a CSV text wrapped in a fenced block
  when it is whitespace, an opening fence, the CSV text, a closing fence and whitespace:
  either \<open>```csv\<close> with whitespace between the label and the text and some whitespace
  between the text and the closing fence, or a fence line with any label but \<open>csv\<close>, the
  text on the next lines and the closing fence on a line of its own. When the CSV text
  holds no triple backtick, fence stripping yields exactly that text without its
  surrounding whitespace. When, further, the text is not blank and the CSV reader makes
  the same table of it with and without this whitespace, the Clean handler stores that
  table: the stored table has the number of columns of the table wrapped in the
  response.
\<close>

theorem wrapped_csv_extraction:
  "(blank lead \<and> blank w1 \<and> blank w2 \<and> w2 \<noteq> [] \<and> blank tail \<and> \<not> py_in ''```'' csv
      \<longrightarrow> strip_csv_fences (labelled_block lead w1 csv w2 tail) = Inr (py_strip csv))
   \<and> (blank lead \<and> CHR ''\<newline>'' \<notin> set label \<and> blank w \<and> CHR ''\<newline>'' \<notin> set w \<and> blank tail
       \<and> \<not> py_in ''```'' csv \<and> \<not> py_in ''```csv'' (generic_block lead label csv w tail)
      \<longrightarrow> strip_csv_fences (generic_block lead label csv w tail) = Inr (py_strip csv))
   \<and> ((reply = labelled_block lead w1 csv w2 tail
          \<and> blank lead \<and> blank w1 \<and> blank w2 \<and> w2 \<noteq> [] \<and> blank tail
        \<or> reply = generic_block lead label csv w tail
          \<and> blank lead \<and> CHR ''\<newline>'' \<notin> set label \<and> blank w \<and> CHR ''\<newline>'' \<notin> set w \<and> blank tail
          \<and> \<not> py_in ''```csv'' reply)
       \<and> \<not> py_in ''```'' csv
       \<and> py_getitem a ''issues'' = Inr issues \<and> join_issues issues = Inr j
       \<and> chat L c (cleaning_request j (to_csv L df)) = Inr (Some reply)
       \<and> py_strip csv \<noteq> [] \<and> read_csv L csv = Inr orig
       \<and> read_csv L (py_strip csv) = read_csv L csv
      \<longrightarrow> state (clean_clicked L (Some c) df S a)
            = S\<lparr>cleaned_data := Some (py_strip csv), cleaned_df := Some orig\<rparr>
          \<and> map_option (\<lambda>t. length (columns t))
               (cleaned_df (state (clean_clicked L (Some c) df S a)))
            = Some (length (columns orig)))"
proof (intro conjI impI)
  assume "blank lead \<and> blank w1 \<and> blank w2 \<and> w2 \<noteq> [] \<and> blank tail \<and> \<not> py_in ''```'' csv"
  then show "strip_csv_fences (labelled_block lead w1 csv w2 tail) = Inr (py_strip csv)"
    by (intro wrapped_labelled) simp_all
next
  assume "blank lead \<and> CHR ''\<newline>'' \<notin> set label \<and> blank w \<and> CHR ''\<newline>'' \<notin> set w \<and> blank tail
       \<and> \<not> py_in ''```'' csv \<and> \<not> py_in ''```csv'' (generic_block lead label csv w tail)"
  then show "strip_csv_fences (generic_block lead label csv w tail) = Inr (py_strip csv)"
    by (intro wrapped_generic) simp_all
next
  assume h: "(reply = labelled_block lead w1 csv w2 tail
          \<and> blank lead \<and> blank w1 \<and> blank w2 \<and> w2 \<noteq> [] \<and> blank tail
        \<or> reply = generic_block lead label csv w tail
          \<and> blank lead \<and> CHR ''\<newline>'' \<notin> set label \<and> blank w \<and> CHR ''\<newline>'' \<notin> set w \<and> blank tail
          \<and> \<not> py_in ''```csv'' reply)
       \<and> \<not> py_in ''```'' csv
       \<and> py_getitem a ''issues'' = Inr issues \<and> join_issues issues = Inr j
       \<and> chat L c (cleaning_request j (to_csv L df)) = Inr (Some reply)
       \<and> py_strip csv \<noteq> [] \<and> read_csv L csv = Inr orig
       \<and> read_csv L (py_strip csv) = read_csv L csv"
  then have n: "\<not> py_in ''```'' csv" by blast
  from h have "reply = labelled_block lead w1 csv w2 tail
          \<and> blank lead \<and> blank w1 \<and> blank w2 \<and> w2 \<noteq> [] \<and> blank tail
        \<or> reply = generic_block lead label csv w tail
          \<and> blank lead \<and> CHR ''\<newline>'' \<notin> set label \<and> blank w \<and> CHR ''\<newline>'' \<notin> set w \<and> blank tail
          \<and> \<not> py_in ''```csv'' reply" by blast
  then have s: "strip_csv_fences reply = Inr (py_strip csv)"
  proof
    assume "reply = labelled_block lead w1 csv w2 tail
          \<and> blank lead \<and> blank w1 \<and> blank w2 \<and> w2 \<noteq> [] \<and> blank tail"
    with n show ?thesis by (simp add: wrapped_labelled)
  next
    assume "reply = generic_block lead label csv w tail
          \<and> blank lead \<and> CHR ''\<newline>'' \<notin> set label \<and> blank w \<and> CHR ''\<newline>'' \<notin> set w \<and> blank tail
          \<and> \<not> py_in ''```csv'' reply"
    with n have "strip_csv_fences (generic_block lead label csv w tail) = Inr (py_strip csv)"
      by (intro wrapped_generic) auto
    with \<open>reply = generic_block lead label csv w tail
          \<and> blank lead \<and> CHR ''\<newline>'' \<notin> set label \<and> blank w \<and> CHR ''\<newline>'' \<notin> set w \<and> blank tail
          \<and> \<not> py_in ''```csv'' reply\<close> show ?thesis by simp
  qed
  from h have g: "py_getitem a ''issues'' = Inr issues" "join_issues issues = Inr j"
    "chat L c (cleaning_request j (to_csv L df)) = Inr (Some reply)"
    "py_strip csv \<noteq> []" "read_csv L (py_strip csv) = Inr orig" by auto
  from g(2,3) s have "clean_data L (Some c) df issues
      = (Some (py_strip csv), [], [cleaning_request j (to_csv L df)])"
    by (rule clean_data_reply)
  from clean_clicked_parsed [OF g(1) this g(4,5)]
  show st: "state (clean_clicked L (Some c) df S a)
            = S\<lparr>cleaned_data := Some (py_strip csv), cleaned_df := Some orig\<rparr>" .
  then show "map_option (\<lambda>t. length (columns t))
               (cleaned_df (state (clean_clicked L (Some c) df S a)))
            = Some (length (columns orig))" by simp
qed

theorem wrapped_csv_extraction_witness:
  "strip_csv_fences ''```csv\<newline>a,b\<newline>1,2\<newline>```\<newline>'' = Inr ''a,b\<newline>1,2''
   \<and> strip_csv_fences '' ```text\<newline>a,b\<newline>1,2\<newline>\<newline>  ```\<newline>'' = Inr ''a,b\<newline>1,2''
   \<and> state (clean_clicked (sample_lib [] '' ```text\<newline>a,b\<newline>1,2\<newline>\<newline>  ```\<newline>'')
        (Some (Groq ''k'')) sample_df
        \<lparr>analysis = Some sample_analysis, cleaned_data = None, cleaned_df = None\<rparr>
        sample_analysis)
      = \<lparr>analysis = Some sample_analysis, cleaned_data = Some ''a,b\<newline>1,2'',
         cleaned_df = Some \<lparr>columns = [''a'', ''b''], rows = [[Some ''1'', Some ''2'']]\<rparr>\<rparr>
   \<and> map_option (\<lambda>t. length (columns t))
        (cleaned_df (state (clean_clicked (sample_lib [] ''```csv\<newline>a,b\<newline>1,2\<newline>```\<newline>'')
           (Some (Groq ''k'')) sample_df
           \<lparr>analysis = Some sample_analysis, cleaned_data = None, cleaned_df = None\<rparr>
           sample_analysis)))
      = Some 2
   \<and> map_sum id (\<lambda>t. length (columns t)) (sample_read_csv ''a,b\<newline>1,2'') = Inr 2
   \<and> map_sum id (\<lambda>t. length (columns t)) (sample_read_csv ''a,b\<newline>1,2\<newline>'') = Inr 2"
proof -
  let ?r1 = "''```csv\<newline>a,b\<newline>1,2\<newline>```\<newline>''"
  let ?r2 = "'' ```text\<newline>a,b\<newline>1,2\<newline>\<newline>  ```\<newline>''"
  let ?S = "\<lparr>analysis = Some sample_analysis, cleaned_data = None, cleaned_df = None\<rparr> :: string session"
  let ?tbl = "\<lparr>columns = [''a'', ''b''], rows = [[Some ''1'', Some ''2'']]\<rparr> :: string table"
  have b: "blank []" "blank ''\<newline>''" "blank '' ''" "blank ''  ''"
    by (simp_all add: blank_def py_isspace_def)
  have n1: "\<not> py_in ''```'' ''a,b\<newline>1,2''" and n2: "\<not> py_in ''```'' ''a,b\<newline>1,2\<newline>''"
    by (simp_all add: py_in_def)
  have s1: "py_strip ''a,b\<newline>1,2'' = ''a,b\<newline>1,2''" and s2: "py_strip ''a,b\<newline>1,2\<newline>'' = ''a,b\<newline>1,2''"
    by (simp_all add: py_strip_def py_isspace_def)
  have e1: "labelled_block [] ''\<newline>'' ''a,b\<newline>1,2'' ''\<newline>'' ''\<newline>'' = ?r1"
    by (simp add: labelled_block_def)
  have e2: "generic_block '' '' ''text'' ''a,b\<newline>1,2\<newline>'' ''  '' ''\<newline>'' = ?r2"
    by (simp add: generic_block_def)
  have m2: "\<not> py_in ''```csv'' ?r2" by (simp add: py_in_def)
  note o1 = wrapped_csv_extraction [where lead = "[]" and ?w1.0 = "''\<newline>''" and csv = "''a,b\<newline>1,2''"
      and ?w2.0 = "''\<newline>''" and tail = "''\<newline>''" and reply = ?r1 and a = sample_analysis
      and issues = "JArr [JStr ''duplicate rows'']" and j = "''duplicate rows''"
      and L = "sample_lib [] ?r1" and c = "Groq ''k''" and df = sample_df and orig = ?tbl
      and S = ?S and label = "[]" and w = "[]"]
  note o2 = wrapped_csv_extraction [where lead = "'' ''" and label = "''text''"
      and csv = "''a,b\<newline>1,2\<newline>''" and w = "''  ''" and tail = "''\<newline>''" and reply = ?r2
      and a = sample_analysis
      and issues = "JArr [JStr ''duplicate rows'']" and j = "''duplicate rows''"
      and L = "sample_lib [] ?r2" and c = "Groq ''k''" and df = sample_df and orig = ?tbl
      and S = ?S and ?w1.0 = "[]" and ?w2.0 = "[]"]
  have g: "py_getitem sample_analysis ''issues'' = Inr (JArr [JStr ''duplicate rows''])"
    "join_issues (JArr [JStr ''duplicate rows'']) = Inr ''duplicate rows''"
    by (simp_all add: sample_eval join_issues_def)
  have k1: "chat (sample_lib [] ?r1) (Groq ''k'')
        (cleaning_request ''duplicate rows'' (to_csv (sample_lib [] ?r1) sample_df)) = Inr (Some ?r1)"
    by (simp add: sample_lib_def cleaning_request_def)
  have k2: "chat (sample_lib [] ?r2) (Groq ''k'')
        (cleaning_request ''duplicate rows'' (to_csv (sample_lib [] ?r2) sample_df)) = Inr (Some ?r2)"
    by (simp add: sample_lib_def cleaning_request_def)
  have rd: "read_csv (sample_lib [] ?r1) ''a,b\<newline>1,2'' = Inr ?tbl"
    "read_csv (sample_lib [] ?r2) ''a,b\<newline>1,2'' = Inr ?tbl
     \<and> read_csv (sample_lib [] ?r2) ''a,b\<newline>1,2\<newline>'' = Inr ?tbl"
    by (simp_all add: sample_lib_def sample_read_csv_def)
  have c1: "strip_csv_fences ?r1 = Inr ''a,b\<newline>1,2''"
    using o1 [THEN conjunct1] b n1 by (simp add: e1 s1)
  have c2: "strip_csv_fences ?r2 = Inr ''a,b\<newline>1,2''"
    using o2 [THEN conjunct2, THEN conjunct1] b n2 m2 by (simp add: e2 s2)
  have c4: "map_option (\<lambda>t. length (columns t))
        (cleaned_df (state (clean_clicked (sample_lib [] ?r1) (Some (Groq ''k'')) sample_df ?S
           sample_analysis))) = Some 2"
    using o1 [THEN conjunct2, THEN conjunct2] b n1 g k1 rd(1) by (simp add: e1 s1)
  have c5: "map_sum id (\<lambda>t. length (columns t)) (sample_read_csv ''a,b\<newline>1,2'') = Inr 2"
    by (simp add: sample_read_csv_def)
  have c6: "map_sum id (\<lambda>t. length (columns t)) (sample_read_csv ''a,b\<newline>1,2\<newline>'') = Inr 2"
    by (simp add: sample_read_csv_def)
  have c3: "state (clean_clicked (sample_lib [] ?r2) (Some (Groq ''k'')) sample_df ?S sample_analysis)
      = \<lparr>analysis = Some sample_analysis, cleaned_data = Some ''a,b\<newline>1,2'',
         cleaned_df = Some ?tbl\<rparr>"
    using o2 [THEN conjunct2, THEN conjunct2] b n2 m2 g k2 rd(2) by (simp add: e2 s2)
  from c1 c2 c3 c4 c5 c6 show ?thesis by (intro conjI)
qed

theorem wrapped_csv_counterexample:
  "\<not> py_in ''```'' '' \"a,b\",c\<newline>\"x,y\",z''
   \<and> strip_csv_fences (labelled_block [] ''\<newline>'' '' \"a,b\",c\<newline>\"x,y\",z'' ''\<newline>'' [])
       = Inr ''\"a,b\",c\<newline>\"x,y\",z''
   \<and> map_option (\<lambda>t. length (columns t))
        (cleaned_df (state (clean_clicked
           (sample_lib [] (labelled_block [] ''\<newline>'' '' \"a,b\",c\<newline>\"x,y\",z'' ''\<newline>'' []))
           (Some (Groq ''k'')) sample_df sample_session sample_analysis))) = Some 2
   \<and> map_sum id (\<lambda>t. length (columns t)) (sample_read_csv '' \"a,b\",c\<newline>\"x,y\",z'') = Inr 3
   \<and> strip_csv_fences (labelled_block [] ''\<newline>'' ''a,```b,c\<newline>1,2,3'' ''\<newline>'' []) = Inr ''a,''
   \<and> map_option (\<lambda>t. length (columns t))
        (cleaned_df (state (clean_clicked
           (sample_lib [] (labelled_block [] ''\<newline>'' ''a,```b,c\<newline>1,2,3'' ''\<newline>'' []))
           (Some (Groq ''k'')) sample_df sample_session sample_analysis))) = Some 2
   \<and> map_sum id (\<lambda>t. length (columns t)) (sample_read_csv ''a,```b,c\<newline>1,2,3'') = Inr 3"
  by (simp add: string_eval strip_csv_fences_def sample_eval clean_clicked_def clean_data_def
      join_issues_def cleaning_request_def labelled_block_def)

subsection \<open>C6\<close>

text \<open>
  C6 (amended). For a loaded table with at least one cell and fewer than \<open>10 ^ 12\<close>
  cells, the text shown beside the missing count is a decimal numeral with one digit
  after the point, followed by \<open>%\<close>, and its value is within 0.05 of 100 times the
  number of null cells divided by rows times columns: the quotient to one decimal place,
  either neighbour when the quotient lies exactly between two. The count shown is the
  number of null cells (for rows that have one cell per column) and never exceeds rows
  times columns. A table with columns and no row shows \<open>nan%\<close>.
\<close>

theorem missing_percentage:
  "(0 < length (rows df) * length (columns df) \<and> length (rows df) * length (columns df) < 10 ^ 12
      \<longrightarrow> (\<exists>t. metrics df ! 2 =
                  Metric ''Missing Values'' (int (missing_total df))
                    (Some (ByText (dec (t div 10) @ ''.'' @ dec (t mod 10) @ ''%'')))
              \<and> \<bar>of_nat t / 10
                   - 100 * of_nat (missing_total df)
                     / (of_nat (length (rows df) * length (columns df)) :: rat)\<bar> \<le> 1 / 20
              \<and> t \<le> 1000))
   \<and> ((\<forall>r\<in>set (rows df). length r = length (columns df))
      \<longrightarrow> missing_total df = length (filter (\<lambda>c. c = None) (concat (rows df))))
   \<and> missing_total df \<le> length (rows df) * length (columns df)
   \<and> (rows df = [] \<and> columns df \<noteq> []
      \<longrightarrow> metrics df ! 2 = Metric ''Missing Values'' 0 (Some (ByText ''nan%'')))"
proof (intro conjI impI)
  assume a: "0 < length (rows df) * length (columns df)
      \<and> length (rows df) * length (columns df) < 10 ^ 12"
  from a missing_total_le [of df]
  have "\<exists>t. format_1f (percentage (missing_total df) (length (rows df) * length (columns df)))
              = dec (t div 10) @ ''.'' @ dec (t mod 10)
           \<and> \<bar>of_nat t / 10 - 100 * of_nat (missing_total df)
                / (of_nat (length (rows df) * length (columns df)) :: rat)\<bar> \<le> 1 / 20
           \<and> t \<le> 1000"
    by (intro percentage_near) simp_all
  then show "\<exists>t. metrics df ! 2 =
                  Metric ''Missing Values'' (int (missing_total df))
                    (Some (ByText (dec (t div 10) @ ''.'' @ dec (t mod 10) @ ''%'')))
              \<and> \<bar>of_nat t / 10
                   - 100 * of_nat (missing_total df)
                     / (of_nat (length (rows df) * length (columns df)) :: rat)\<bar> \<le> 1 / 20
              \<and> t \<le> 1000"
    by (auto simp: metrics_def missing_pct_def)
next
  assume "\<forall>r\<in>set (rows df). length r = length (columns df)"
  then show "missing_total df = length (filter (\<lambda>c. c = None) (concat (rows df)))"
    by (rule missing_total_cells)
next
  show "missing_total df \<le> length (rows df) * length (columns df)" by (rule missing_total_le)
next
  assume a: "rows df = [] \<and> columns df \<noteq> []"
  with missing_total_le [of df] have "missing_total df = 0" by simp
  with a pct_nan [THEN conjunct2] show "metrics df ! 2 = Metric ''Missing Values'' 0 (Some (ByText ''nan%''))"
    by (simp add: metrics_def missing_pct_def)
qed

theorem missing_percentage_witness:
  "metrics sample_nulls ! 2 = Metric ''Missing Values'' 2 (Some (ByText ''22.2%''))
   \<and> (\<exists>t. metrics sample_nulls ! 2
            = Metric ''Missing Values'' 2 (Some (ByText (dec (t div 10) @ ''.'' @ dec (t mod 10) @ ''%'')))
          \<and> \<bar>of_nat t / 10 - 100 * 2 / (9 :: rat)\<bar> \<le> 1 / 20 \<and> t \<le> 1000)
   \<and> length (filter (\<lambda>c. c = None) (concat (rows sample_nulls))) = 2
   \<and> metrics \<lparr>columns = [''a''], rows = replicate 1 [None] @ replicate 1999 [Some ''x'']\<rparr> ! 2
       = Metric ''Missing Values'' 1 (Some (ByText ''0.1%''))
   \<and> metrics \<lparr>columns = [''a''], rows = replicate 3 [None] @ replicate 1997 [Some ''x'']\<rparr> ! 2
       = Metric ''Missing Values'' 3 (Some (ByText ''0.1%''))
   \<and> metrics \<lparr>columns = [''a'', ''Unnamed: 1''], rows = ([] :: string option list list)\<rparr> ! 2
       = Metric ''Missing Values'' 0 (Some (ByText ''nan%''))"
proof -
  let ?e = "\<lparr>columns = [''a'', ''Unnamed: 1''], rows = ([] :: string option list list)\<rparr>"
  have m: "missing_total sample_nulls = 2"
    by (simp add: missing_total_def isnull_sum_def cell_def sample_nulls_def)
  have n: "length (rows sample_nulls) * length (columns sample_nulls) = 9"
    by (simp add: sample_nulls_def)
  have r: "\<forall>r\<in>set (rows sample_nulls). length r = length (columns sample_nulls)"
    by (simp add: sample_nulls_def)
  note o = missing_percentage [of sample_nulls]
  from o n have "\<exists>t. metrics sample_nulls ! 2 =
                  Metric ''Missing Values'' (int (missing_total sample_nulls))
                    (Some (ByText (dec (t div 10) @ ''.'' @ dec (t mod 10) @ ''%'')))
              \<and> \<bar>of_nat t / 10
                   - 100 * of_nat (missing_total sample_nulls)
                     / (of_nat (length (rows sample_nulls) * length (columns sample_nulls)) :: rat)\<bar> \<le> 1 / 20
              \<and> t \<le> 1000"
    by simp
  then have c2: "\<exists>t. metrics sample_nulls ! 2
            = Metric ''Missing Values'' 2 (Some (ByText (dec (t div 10) @ ''.'' @ dec (t mod 10) @ ''%'')))
          \<and> \<bar>of_nat t / 10 - 100 * 2 / (9 :: rat)\<bar> \<le> 1 / 20 \<and> t \<le> 1000"
    by (simp add: m n)
  from o r m have c3: "length (filter (\<lambda>c. c = None) (concat (rows sample_nulls))) = 2" by simp
  have c1: "metrics sample_nulls ! 2 = Metric ''Missing Values'' 2 (Some (ByText ''22.2%''))"
    using pct_two_ninths [THEN conjunct2] by (simp add: metrics_def missing_pct_def m n)
  have c4: "metrics \<lparr>columns = [''a''], rows = replicate 1 [None] @ replicate 1999 [Some ''x'']\<rparr> ! 2
       = Metric ''Missing Values'' 1 (Some (ByText ''0.1%''))"
    using pct_tie_up [THEN conjunct2] by (simp only: metrics_def missing_pct_def one_column_missing) simp
  have c5: "metrics \<lparr>columns = [''a''], rows = replicate 3 [None] @ replicate 1997 [Some ''x'']\<rparr> ! 2
       = Metric ''Missing Values'' 3 (Some (ByText ''0.1%''))"
    using pct_tie_down [THEN conjunct2] by (simp only: metrics_def missing_pct_def one_column_missing) simp
  from missing_percentage [of ?e] have c6: "metrics ?e ! 2 = Metric ''Missing Values'' 0 (Some (ByText ''nan%''))"
    by simp
  from c1 c2 c3 c4 c5 c6 show ?thesis by (intro conjI)
qed

theorem missing_percentage_counterexample:
  "sample_read_csv ''a,'' = Inr \<lparr>columns = [''a'', ''Unnamed: 1''], rows = []\<rparr>
   \<and> metrics \<lparr>columns = [''a'', ''Unnamed: 1''], rows = ([] :: string option list list)\<rparr>
       = [Metric ''Rows'' 0 None, Metric ''Columns'' 2 None,
          Metric ''Missing Values'' 0 (Some (ByText ''nan%'')), Metric ''Duplicates'' 0 None]
   \<and> length (rows \<lparr>columns = [''a''],
                   rows = replicate 4218071056690 [None] @ replicate 1263502766169 [Some ''x'']\<rparr>)
       = 5481573822859
   \<and> metrics \<lparr>columns = [''a''],
              rows = replicate 4218071056690 [None] @ replicate 1263502766169 [Some ''x'']\<rparr> ! 2
       = Metric ''Missing Values'' 4218071056690 (Some (ByText ''77.0%''))
   \<and> 100 * 4218071056690 / (5481573822859 :: rat) < 7695 / 100
   \<and> 1 / 20 < \<bar>770 / 10 - 100 * 4218071056690 / (5481573822859 :: rat)\<bar>"
proof -
  let ?e = "\<lparr>columns = [''a'', ''Unnamed: 1''], rows = ([] :: string option list list)\<rparr>"
  have "percentage (missing_total ?e) 0 = NaN"
    using pct_nan by (simp add: missing_total_def isnull_sum_def)
  then have c2: "metrics ?e = [Metric ''Rows'' 0 None, Metric ''Columns'' 2 None,
          Metric ''Missing Values'' 0 (Some (ByText ''nan%'')), Metric ''Duplicates'' 0 None]"
    by (simp add: metrics_def missing_pct_def format_1f_def missing_total_def isnull_sum_def
        duplicates_def duplicated_def)
  have c4: "metrics \<lparr>columns = [''a''],
              rows = replicate 4218071056690 [None] @ replicate 1263502766169 [Some ''x'']\<rparr> ! 2
       = Metric ''Missing Values'' 4218071056690 (Some (ByText ''77.0%''))"
    using pct_large [THEN conjunct2] by (simp only: metrics_def missing_pct_def one_column_missing) simp
  from c2 c4 show ?thesis by (simp add: sample_read_csv_def)
qed

subsection \<open>C7\<close>

text \<open>
  C7. The displayed duplicate count is the number of rows that equal an earlier row:
  every row after the first of its kind is counted and the first is not, so the count
  and the number of distinct rows add up to the number of rows.
\<close>

theorem duplicates_count:
  "duplicates df = card {i. i < length (rows df) \<and> (\<exists>j<i. rows df ! j = rows df ! i)}
   \<and> duplicates df + card (set (rows df)) = length (rows df)
   \<and> metrics df ! 3 = Metric ''Duplicates'' (int (duplicates df)) None"
proof (intro conjI)
  let ?rs = "rows df"
  have "duplicates df = card {i. i < length ?rs \<and> duplicated_scan [] ?rs ! i}"
    by (simp add: duplicates_def duplicated_def length_filter_conv_card duplicated_scan_length)
  also have "{i. i < length ?rs \<and> duplicated_scan [] ?rs ! i}
      = {i. i < length ?rs \<and> (\<exists>j<i. ?rs ! j = ?rs ! i)}"
  proof -
    have "duplicated_scan [] ?rs ! i \<longleftrightarrow> (\<exists>j<i. ?rs ! j = ?rs ! i)" if "i < length ?rs" for i
      using duplicated_scan_nth [OF that, of "[]"] earlier_equal_row [OF that] by simp
    then show ?thesis by blast
  qed
  finally show "duplicates df = card {i. i < length ?rs \<and> (\<exists>j<i. ?rs ! j = ?rs ! i)}" .
  from duplicated_scan_count [of "[]" ?rs]
  show "duplicates df + card (set ?rs) = length ?rs"
    by (simp add: duplicates_def duplicated_def)
  show "metrics df ! 3 = Metric ''Duplicates'' (int (duplicates df)) None"
    by (simp add: metrics_def numeral_3_eq_3)
qed

theorem duplicates_count_witness:
  "card {i. i < length (rows \<lparr>columns = [''a''], rows = [[Some (1::int)], [None], [Some 1], [None], [Some 1]]\<rparr>)
         \<and> (\<exists>j<i. rows \<lparr>columns = [''a''], rows = [[Some (1::int)], [None], [Some 1], [None], [Some 1]]\<rparr> ! j
                 = rows \<lparr>columns = [''a''], rows = [[Some (1::int)], [None], [Some 1], [None], [Some 1]]\<rparr> ! i)} = 3
   \<and> duplicated \<lparr>columns = [''a''], rows = [[Some (1::int)], [None], [Some 1], [None], [Some 1]]\<rparr>
       = [False, False, True, True, True]"
proof -
  let ?df = "\<lparr>columns = [''a''], rows = [[Some (1::int)], [None], [Some 1], [None], [Some 1]]\<rparr>"
  let ?S = "{i. i < length (rows ?df) \<and> (\<exists>j<i. rows ?df ! j = rows ?df ! i)}"
  have e: "duplicated ?df = [False, False, True, True, True]" by (simp add: duplicated_def)
  from duplicates_count [of ?df] have "duplicates ?df = card ?S" by (rule conjunct1)
  then have "card ?S = duplicates ?df" by (rule sym)
  also have "duplicates ?df = 3" by (simp add: duplicates_def duplicated_def)
  finally have "card ?S = 3" .
  from this e show ?thesis by (rule conjI)
qed

subsection \<open>C8\<close>

text \<open>
  C8. A click on Analyze with a client sends exactly one request. Its prompt is the fixed
  instruction followed by the CSV text of \<open>df.head(100)\<close>: the table with the same
  columns whose rows are the first min(100, N) rows of the loaded table, in order.
\<close>

theorem analysis_sample_rows:
  "sent (analysis_tab L (Some c) df ClickAnalyze S) = [analysis_request (to_csv L (head 100 df))]
   \<and> content (analysis_request (to_csv L (head 100 df))) = analysis_prompt (to_csv L (head 100 df))
   \<and> suffix (to_csv L (head 100 df)) (analysis_prompt (to_csv L (head 100 df)))
   \<and> columns (head 100 df) = columns df
   \<and> rows (head 100 df) = take (min 100 (length (rows df))) (rows df)
   \<and> length (rows (head 100 df)) = min 100 (length (rows df))"
proof (intro conjI)
  show "sent (analysis_tab L (Some c) df ClickAnalyze S) = [analysis_request (to_csv L (head 100 df))]"
    by (simp only: analysis_tab_analyze_sent analyze_clicked_sent)
  show "content (analysis_request (to_csv L (head 100 df))) = analysis_prompt (to_csv L (head 100 df))"
    by (simp add: analysis_request_def)
  show "suffix (to_csv L (head 100 df)) (analysis_prompt (to_csv L (head 100 df)))"
    by (auto simp: analysis_prompt_def suffix_def simp flip: append_assoc)
  show "columns (head 100 df) = columns df" by (simp add: head_def)
  show "rows (head 100 df) = take (min 100 (length (rows df))) (rows df)" by (simp add: head_def min_def)
  show "length (rows (head 100 df)) = min 100 (length (rows df))" by (simp add: head_def min_def)
qed

theorem analysis_sample_rows_witness:
  "sent (analysis_tab (sample_lib ''42'' []) (Some (Groq ''k''))
          \<lparr>columns = [''a''], rows = replicate 150 [Some ''x'']\<rparr> ClickAnalyze
          \<lparr>analysis = None, cleaned_data = None, cleaned_df = None\<rparr>)
     = [analysis_request (to_csv_plain \<lparr>columns = [''a''], rows = replicate 100 [Some ''x'']\<rparr>)]
   \<and> length (rows (head 100 \<lparr>columns = [''a''], rows = replicate 150 [Some ''x'']\<rparr>)) = 100
   \<and> length (rows (head 100 sample_df)) = 2"
proof -
  let ?df = "\<lparr>columns = [''a''], rows = replicate 150 [Some ''x'']\<rparr> :: string table"
  have h: "head 100 ?df = \<lparr>columns = [''a''], rows = replicate 100 [Some ''x'']\<rparr>"
    by (simp add: head_def)
  have t: "to_csv (sample_lib ''42'' []) = to_csv_plain" by (simp add: sample_lib_def)
  from analysis_sample_rows [of "sample_lib ''42'' []" "Groq ''k''" ?df
      "\<lparr>analysis = None, cleaned_data = None, cleaned_df = None\<rparr>"]
    analysis_sample_rows [of "sample_lib ''42'' []" "Groq ''k''" sample_df
      "\<lparr>analysis = None, cleaned_data = None, cleaned_df = None\<rparr>"]
  show ?thesis unfolding h t by (simp add: sample_df_def)
qed

subsection \<open>C9\<close>




subsection \<open>C10\<close>

text \<open>
  C10 (amended). Without a \<open>```csv\<close> marker but with a fence, \<open>clean_data\<close> drops every
  line whose stripped content starts with a fence and keeps the other lines, prose
  included, in order and unchanged (splitting the joined text gives the kept lines
  back), then strips the result. With a \<open>```csv\<close> marker it takes the text between the
  first marker and the next fence, unless a second marker starts one or two characters
  into that closing fence, and everything after the marker when no fence follows; this
  text is stripped as well. A reply without any fence is only stripped.
\<close>

theorem clean_fence_stripping:
  "(\<not> py_in ''```csv'' t \<and> py_in ''```'' t \<longrightarrow>
      strip_csv_fences t =
        Inr (py_strip (py_join ''\<newline>'' (filter (\<lambda>l. \<not> fence_line l) (py_split ''\<newline>'' t)))))
   \<and> (filter (\<lambda>l. \<not> fence_line l) (py_split ''\<newline>'' t) \<noteq> [] \<longrightarrow>
      py_split ''\<newline>'' (py_join ''\<newline>'' (filter (\<lambda>l. \<not> fence_line l) (py_split ''\<newline>'' t)))
        = filter (\<lambda>l. \<not> fence_line l) (py_split ''\<newline>'' t))
   \<and> (py_in ''```csv'' t \<and> fenced_body ''```csv'' t = Some b \<and> \<not> marker_overlaps ''```csv'' t
      \<longrightarrow> strip_csv_fences t = Inr (py_strip b))
   \<and> (rest_after ''```csv'' t = Some r \<and> fenced_body ''```csv'' t = None
      \<longrightarrow> strip_csv_fences t = Inr (py_strip r))
   \<and> (\<not> py_in ''```'' t \<longrightarrow> strip_csv_fences t = Inr (py_strip t))"
proof (intro conjI impI)
  assume "\<not> py_in ''```csv'' t \<and> py_in ''```'' t"
  then show "strip_csv_fences t =
        Inr (py_strip (py_join ''\<newline>'' (filter (\<lambda>l. \<not> fence_line l) (py_split ''\<newline>'' t))))"
    by (simp add: strip_csv_fences_def)
next
  assume "filter (\<lambda>l. \<not> fence_line l) (py_split ''\<newline>'' t) \<noteq> []"
  then show "py_split ''\<newline>'' (py_join ''\<newline>'' (filter (\<lambda>l. \<not> fence_line l) (py_split ''\<newline>'' t)))
        = filter (\<lambda>l. \<not> fence_line l) (py_split ''\<newline>'' t)"
    by (rule kept_lines [OF refl])
next
  assume "py_in ''```csv'' t \<and> fenced_body ''```csv'' t = Some b \<and> \<not> marker_overlaps ''```csv'' t"
  then show "strip_csv_fences t = Inr (py_strip b)" by (simp add: strip_csv_fences_labelled)
next
  assume "rest_after ''```csv'' t = Some r \<and> fenced_body ''```csv'' t = None"
  then show "strip_csv_fences t = Inr (py_strip r)" by (simp add: strip_csv_fences_unclosed)
next
  assume a: "\<not> py_in ''```'' t"
  then have "\<not> py_in ''```csv'' t" using no_csv_marker by (auto simp: py_in_def)
  with a show "strip_csv_fences t = Inr (py_strip t)" by (simp add: strip_csv_fences_def)
qed

theorem clean_fence_stripping_witness:
  "strip_csv_fences ''Here:\<newline>```\<newline>a,b\<newline>  ```text\<newline>1,2\<newline>```\<newline>Done\<newline>''
     = Inr ''Here:\<newline>a,b\<newline>1,2\<newline>Done''
   \<and> py_split ''\<newline>'' ''Here:\<newline>a,b\<newline>1,2\<newline>Done\<newline>''
     = [''Here:'', ''a,b'', ''1,2'', ''Done'', '''']
   \<and> strip_csv_fences ''Sure: ```csv\<newline>a,b\<newline>1,2\<newline>``` Done'' = Inr ''a,b\<newline>1,2''
   \<and> strip_csv_fences ''```csv\<newline>a,b\<newline>1,2'' = Inr ''a,b\<newline>1,2''
   \<and> strip_csv_fences '' a,b\<newline>1,2\<newline>'' = Inr ''a,b\<newline>1,2''"
proof -
  let ?t1 = "''Here:\<newline>```\<newline>a,b\<newline>  ```text\<newline>1,2\<newline>```\<newline>Done\<newline>''"
  let ?t3 = "''Sure: ```csv\<newline>a,b\<newline>1,2\<newline>``` Done''"
  let ?t4 = "''```csv\<newline>a,b\<newline>1,2''"
  let ?t5 = "'' a,b\<newline>1,2\<newline>''"
  note o = clean_fence_stripping
  have k: "filter (\<lambda>l. \<not> fence_line l) (py_split ''\<newline>'' ?t1)
      = [''Here:'', ''a,b'', ''1,2'', ''Done'', '''']"
    by (simp add: py_split.simps fence_line_def py_strip_def py_isspace_def)
  have h1: "\<not> py_in ''```csv'' ?t1 \<and> py_in ''```'' ?t1" by (simp add: py_in_def)
  from o [of ?t1] h1 k have c1: "strip_csv_fences ?t1 = Inr ''Here:\<newline>a,b\<newline>1,2\<newline>Done''"
    by (simp add: py_strip_def py_isspace_def)
  from o [of ?t1] k have c2: "py_split ''\<newline>'' ''Here:\<newline>a,b\<newline>1,2\<newline>Done\<newline>''
     = [''Here:'', ''a,b'', ''1,2'', ''Done'', '''']" by simp
  have h3: "py_in ''```csv'' ?t3 \<and> fenced_body ''```csv'' ?t3 = Some ''\<newline>a,b\<newline>1,2\<newline>''
      \<and> \<not> marker_overlaps ''```csv'' ?t3"
    by (simp add: py_in_def rest_after_def fenced_body_def marker_overlaps_def)
  from o [of ?t3 "''\<newline>a,b\<newline>1,2\<newline>''"] h3 have c3: "strip_csv_fences ?t3 = Inr ''a,b\<newline>1,2''"
    by (simp add: py_strip_def py_isspace_def)
  have h4: "rest_after ''```csv'' ?t4 = Some ''\<newline>a,b\<newline>1,2'' \<and> fenced_body ''```csv'' ?t4 = None"
    by (simp add: rest_after_def fenced_body_def)
  from o [of ?t4 _ "''\<newline>a,b\<newline>1,2''"] h4 have c4: "strip_csv_fences ?t4 = Inr ''a,b\<newline>1,2''"
    by (simp add: py_strip_def py_isspace_def)
  have h5: "\<not> py_in ''```'' ?t5" by (simp add: py_in_def)
  from o [of ?t5] h5 have c5: "strip_csv_fences ?t5 = Inr ''a,b\<newline>1,2''"
    by (simp add: py_strip_def py_isspace_def)
  from c1 c2 c3 c4 c5 show ?thesis by (intro conjI)
qed

theorem clean_fence_pair_counterexample:
  "py_in ''```csv'' ''```csvA````csv''
   \<and> fenced_body ''```csv'' ''```csvA````csv'' = Some ''A''
   \<and> strip_csv_fences ''```csvA````csv'' = Inr ''A`''
   \<and> strip_csv_fences ''```csvA````csv'' \<noteq> Inr (py_strip ''A'')
   \<and> strip_csv_fences ''```csvA````csv'' \<noteq> Inr ''A''"
  by (simp add: string_eval strip_csv_fences_def)

end
